theory Spec2Isabelle
  imports Complex_Main "HOL-Library.Multiset"
begin

section \<open>Tensors and the tensor operations the attack uses\<close>

text \<open>
  A one-dimensional float tensor is a list of reals; an index tensor (int64) is a list of
  integers. Rounding of the float arithmetic is not modelled: every operation below
  (sign, negation, comparison, counting) is exact on floats, and the mean is taken in the
  reals. A float result that can be NaN is a \<open>real option\<close> with \<open>None\<close> for NaN.
\<close>

datatype error = IndexError | ZeroDivisionError | RuntimeError | AttributeError | ModuleLookupError

type_synonym tensor = "real list"

text \<open>\<open>torch.sign\<close>: the sign of zero is zero.\<close>

definition sign :: "real \<Rightarrow> real" where
  "sign x = (if 0 < x then 1 else if x < 0 then - 1 else 0)"

definition tsign :: "tensor \<Rightarrow> tensor" where
  "tsign w = map sign w"

text \<open>
  Indexing a tensor of \<open>n\<close> entries with an integer: a negative index counts from the
  end, and an index outside \<open>[-n, n)\<close> raises.
\<close>

definition wrap_index :: "nat \<Rightarrow> int \<Rightarrow> nat" where
  "wrap_index n i = (if i < 0 then nat (i + int n) else nat i)"

definition index_ok :: "nat \<Rightarrow> int \<Rightarrow> bool" where
  "index_ok n i = (- int n \<le> i \<and> i < int n)"

text \<open>
  \<open>t[is] *= c\<close> with an index tensor \<open>is\<close>: the entries at \<open>is\<close> are gathered,
  multiplied, and written back one index after the other.
\<close>

fun index_put :: "tensor \<Rightarrow> (nat \<times> real) list \<Rightarrow> tensor" where
  "index_put t [] = t"
| "index_put t ((j, v) # jvs) = index_put (t[j := v]) jvs"

definition index_imul :: "tensor \<Rightarrow> int list \<Rightarrow> real \<Rightarrow> error + tensor" where
  "index_imul t is c =
     (if list_all (index_ok (length t)) is
      then Inr (index_put t (map (\<lambda>i. (wrap_index (length t) i, t ! wrap_index (length t) i * c)) is))
      else Inl IndexError)"

text \<open>\<open>(a == b).float().mean()\<close>: the mean of an empty tensor is NaN.\<close>

definition eq_mean :: "tensor \<Rightarrow> tensor \<Rightarrow> real option" where
  "eq_mean a b =
     (if a = [] then None
      else Some (real (length (filter (\<lambda>(x, y). x = y) (zip a b))) / real (length a)))"

text \<open>\<open>sim += t\<close> on floats: NaN is absorbing.\<close>

definition fadd :: "real option \<Rightarrow> real option \<Rightarrow> real option" where
  "fadd a b = (case a of None \<Rightarrow> None | Some x \<Rightarrow> (case b of None \<Rightarrow> None | Some y \<Rightarrow> Some (x + y)))"

section \<open>The body of the flip loop of \<open>run_attack_2\<close>\<close>

text \<open>
  One iteration on the weight \<open>w\<close> of a layer and the index pool \<open>idxs\<close>. The result
  is the new weight, the layer's similarity term, the local indices \<open>widxs\<close> the layer
  consumed, and the pool handed to the next layer.
\<close>

definition flip_layer :: "tensor \<Rightarrow> int list \<Rightarrow> error + (tensor \<times> real option \<times> int list \<times> int list)" where
  "flip_layer w idxs =
     (let size = int (length w);
          widxs = filter (\<lambda>i. i - size < 0) idxs;
          origsign = tsign w;
          newsign = origsign
      in case index_imul newsign widxs (- 1) of
           Inl e \<Rightarrow> Inl e
         | Inr newsign' \<Rightarrow>
             Inr (newsign',
                  eq_mean (tsign newsign') origsign,
                  widxs,
                  map (\<lambda>i. i - size) (filter (\<lambda>i. i - size \<ge> 0) idxs)))"

section \<open>The attacked model as a store of named parameters\<close>

text \<open>
  The key \<open>'k\<close> of a block is what an entry of \<open>plkeys\<close> resolves to: the index
  into \<open>model.features\<close> for AlexNet, the path \<open>layer.i.module\<close> for a ResNet. The
  model classes are not part of the sources; a model is the store of its parameters, each
  a tensor \<open>data\<close> with its \<open>requires_grad\<close> flag. \<open>BnWeight k\<close> and \<open>BnBias k\<close>
  are \<open>bn.weight\<close> and \<open>bn.bias\<close> of block \<open>k\<close>, \<open>ConvWeight k\<close> its convolution
  weight, and \<open>Other n\<close> any further parameter (the classifier).
\<close>

datatype 'k pname = ConvWeight 'k | BnWeight 'k | BnBias 'k | Other nat

record param =
  data :: tensor
  requires_grad :: bool

type_synonym 'k model = "'k pname \<rightharpoonup> param"

text \<open>The passport model is read only through \<open>get_scale()\<close> and \<open>get_bias()\<close>.\<close>

record passblock =
  get_scale :: tensor
  get_bias :: tensor

text \<open>\<open>for param in model.parameters(): param.requires_grad_(False)\<close>\<close>

definition freeze_all :: "'k model \<Rightarrow> 'k model" where
  "freeze_all m = (\<lambda>n. map_option (\<lambda>p. p\<lparr>requires_grad := False\<rparr>) (m n))"

text \<open>
  \<open>dst.data.copy_(src)\<close>: the source is broadcast to the shape of the destination, so
  a source of the same length or of length one is accepted, anything else raises.
\<close>

definition tensor_copy :: "tensor \<Rightarrow> tensor \<Rightarrow> error + tensor" where
  "tensor_copy dst src =
     (if length src = length dst then Inr src
      else if length src = 1 then Inr (replicate (length dst) (hd src))
      else Inl RuntimeError)"

text \<open>
  The first loop over \<open>plkeys\<close>: the passport's scale and bias are copied into the
  batch-norm weight and bias of the plain model, and both are made trainable.
\<close>

fun load_affine :: "('k \<rightharpoonup> passblock) \<Rightarrow> 'k list \<Rightarrow> 'k model \<Rightarrow> error + 'k model" where
  "load_affine pm [] m = Inr m"
| "load_affine pm (fidx # ks) m =
     (case (m (BnWeight fidx), pm fidx, m (BnBias fidx)) of
        (Some w, Some pb, Some b) \<Rightarrow>
          (case tensor_copy (data w) (get_scale pb) of
             Inl e \<Rightarrow> Inl e
           | Inr wd \<Rightarrow>
               (case tensor_copy (data b) (get_bias pb) of
                  Inl e \<Rightarrow> Inl e
                | Inr bd \<Rightarrow>
                    load_affine pm ks
                      (m(BnWeight fidx \<mapsto> \<lparr>data = wd, requires_grad = True\<rparr>,
                         BnBias fidx \<mapsto> \<lparr>data = bd, requires_grad = True\<rparr>))))
      | _ \<Rightarrow> Inl ModuleLookupError)"

text \<open>
  The second loop over \<open>plkeys\<close>: the weight of each block is appended to
  \<open>conv_weights_to_reset\<close> (a reference, here the parameter's name), its size is added
  to \<open>total_weight_size\<close>, and its bias is zeroed.
\<close>

definition tensor_zero :: "tensor \<Rightarrow> tensor" where
  "tensor_zero t = replicate (length t) 0"

fun collect_weights ::
  "'k list \<Rightarrow> 'k model \<times> 'k pname list \<times> nat \<Rightarrow> error + ('k model \<times> 'k pname list \<times> nat)" where
  "collect_weights [] acc = Inr acc"
| "collect_weights (fidx # ks) (m, conv_weights_to_reset, total_weight_size) =
     (case (m (BnWeight fidx), m (BnBias fidx)) of
        (Some w, Some b) \<Rightarrow>
          collect_weights ks
            (m(BnWeight fidx \<mapsto> w\<lparr>requires_grad := True\<rparr>,
               BnBias fidx \<mapsto> \<lparr>data = tensor_zero (data b), requires_grad = True\<rparr>),
             conv_weights_to_reset @ [BnWeight fidx],
             total_weight_size + length (data w))
      | _ \<Rightarrow> Inl ModuleLookupError)"

section \<open>Index selection\<close>

text \<open>\<open>int(x)\<close> on a float truncates towards zero.\<close>

definition py_int :: "real \<Rightarrow> int" where
  "py_int x = (if 0 \<le> x then \<lfloor>x\<rfloor> else \<lceil>x\<rceil>)"

text \<open>The slice \<open>xs[:k]\<close>: a negative \<open>k\<close> counts from the end.\<close>

definition slice_to :: "'a list \<Rightarrow> int \<Rightarrow> 'a list" where
  "slice_to xs k = (if 0 \<le> k then take (nat k) xs else take (nat (int (length xs) + k)) xs)"

text \<open>
  \<open>idxs = randidxs[:int(total_weight_size * args.flipperc)]\<close>, where \<open>randidxs\<close> is
  what \<open>torch.randperm(total_weight_size)\<close> returned. The call takes no generator and
  \<open>run_attack_2\<close> takes no seed: the permutation comes from the global generator of the
  process, so it is an input of the model. The product is taken in the reals (\<open>flipperc\<close>
  is a finite number; the rounding of the float product is not modelled).
\<close>

definition is_randperm :: "nat \<Rightarrow> int list \<Rightarrow> bool" where
  "is_randperm n randidxs = (mset randidxs = mset (map int [0..<n]))"

definition select_idxs :: "int list \<Rightarrow> nat \<Rightarrow> real \<Rightarrow> int list" where
  "select_idxs randidxs total_weight_size flipperc =
     slice_to randidxs (py_int (real total_weight_size * flipperc))"

section \<open>The flip loop\<close>

text \<open>
  The state of the loop: the model, the index pool \<open>idxs\<close>, the accumulator \<open>sim\<close>,
  and (for the statements below only) the local indices each iteration consumed. An entry
  of \<open>conv_weights_to_reset\<close> is a reference to a parameter of the model, here its name,
  so that a block listed twice is flipped twice in place, as in the source; a name without
  a parameter cannot arise from the loop that collects them.
\<close>

record 'k attack_state =
  net :: "'k model"
  idxs :: "int list"
  sim :: "real option"
  consumed :: "int list list"

fun flip_loop :: "'k pname list \<Rightarrow> 'k attack_state \<Rightarrow> error + 'k attack_state" where
  "flip_loop [] st = Inr st"
| "flip_loop (r # rs) st =
     (case net st r of
        None \<Rightarrow> Inl ModuleLookupError
      | Some w \<Rightarrow>
          (case flip_layer (data w) (idxs st) of
             Inl e \<Rightarrow> Inl e
           | Inr (w', s, widxs, idxs') \<Rightarrow>
               flip_loop rs
                 \<lparr>net = (net st)(r \<mapsto> w\<lparr>data := w'\<rparr>),
                  idxs = idxs',
                  sim = fadd (sim st) s,
                  consumed = consumed st @ [widxs]\<rparr>))"

text \<open>\<open>sim / len(conv_weights_to_reset)\<close>, with \<open>sim\<close> the integer 0 when no layer ran.\<close>

definition signature_similarity :: "'k pname list \<Rightarrow> real option \<Rightarrow> error + real option" where
  "signature_similarity conv_weights_to_reset s =
     (if conv_weights_to_reset = [] then Inl ZeroDivisionError
      else Inr (map_option (\<lambda>x. x / real (length conv_weights_to_reset)) s))"

text \<open>
  The attack from the second loop over \<open>plkeys\<close> to the printed similarity: the final
  state of the flip loop and the similarity.
\<close>

definition apply_attack ::
  "'k list \<Rightarrow> (nat \<Rightarrow> int list) \<Rightarrow> real \<Rightarrow> 'k model \<Rightarrow> error + ('k attack_state \<times> real option)" where
  "apply_attack plkeys randperm flipperc m =
     (case collect_weights plkeys (m, [], 0) of
        Inl e \<Rightarrow> Inl e
      | Inr (m', conv_weights_to_reset, total_weight_size) \<Rightarrow>
          (case flip_loop conv_weights_to_reset
                  \<lparr>net = m',
                   idxs = select_idxs (randperm total_weight_size) total_weight_size flipperc,
                   sim = Some 0,
                   consumed = []\<rparr> of
             Inl e \<Rightarrow> Inl e
           | Inr st \<Rightarrow>
               (case signature_similarity conv_weights_to_reset (sim st) of
                  Inl e \<Rightarrow> Inl e
                | Inr s \<Rightarrow> Inr (st, s))))"

text \<open>The setup of \<open>run_attack_2\<close> up to the printed similarity.\<close>

definition attack_setup ::
  "('k \<rightharpoonup> passblock) \<Rightarrow> 'k list \<Rightarrow> (nat \<Rightarrow> int list) \<Rightarrow> real \<Rightarrow> 'k model
     \<Rightarrow> error + ('k attack_state \<times> real option)" where
  "attack_setup pm plkeys randperm flipperc m =
     (case load_affine pm plkeys (freeze_all m) of
        Inl e \<Rightarrow> Inl e
      | Inr m1 \<Rightarrow> apply_attack plkeys randperm flipperc m1)"

section \<open>Fine-tuning\<close>

text \<open>
  The optimizer is torch's SGD over \<open>model.parameters()\<close>. Its step skips every parameter
  that has no gradient, and \<open>loss.backward()\<close> computes none for a parameter whose
  \<open>requires_grad\<close> is False. What a step writes into a trainable parameter (gradient,
  momentum, weight decay) is left open: \<open>upd m n\<close> is the new data of parameter \<open>n\<close>,
  computed from the model before the step. \<open>train\<close> is one epoch, a step per batch;
  \<open>fine_tune\<close> is the loop over the epochs.
\<close>

definition optimizer_step :: "('k model \<Rightarrow> 'k pname \<Rightarrow> tensor) \<Rightarrow> 'k model \<Rightarrow> 'k model" where
  "optimizer_step upd m =
     (\<lambda>n. map_option (\<lambda>p. if requires_grad p then p\<lparr>data := upd m n\<rparr> else p) (m n))"

fun train :: "('k model \<Rightarrow> 'k pname \<Rightarrow> tensor) list \<Rightarrow> 'k model \<Rightarrow> 'k model" where
  "train [] m = m"
| "train (upd # batches) m = train batches (optimizer_step upd m)"

fun fine_tune :: "('k model \<Rightarrow> 'k pname \<Rightarrow> tensor) list list \<Rightarrow> 'k model \<Rightarrow> 'k model" where
  "fine_tune [] m = m"
| "fine_tune (ep # eps) m = fine_tune eps (train ep m)"

section \<open>Transplanting the weights into the clone model\<close>

text \<open>
  A state dict is an ordered list of names and tensors. A module is its state dict
  together with what \<open>get_scale()\<close> and \<open>get_bias()\<close> return when the module is a
  passport block (\<open>None\<close> when it has no such methods). A model is the list of its
  modules; the whole-model state dict pairs the modules of two models by position.
\<close>

type_synonym state_dict = "(string \<times> tensor) list"

record module =
  params :: state_dict
  passport :: "passblock option"

text \<open>
  \<open>dst.load_state_dict(src, strict)\<close>: every entry of \<open>dst\<close> whose name is in \<open>src\<close>
  with the same shape is overwritten, in place, before anything is raised. The call raises
  when a shape differs, and, when strict, also when a name of \<open>dst\<close> is missing from
  \<open>src\<close> or a name of \<open>src\<close> is unexpected. The result is the new state and whether
  the call raised.
\<close>

definition load_entry :: "state_dict \<Rightarrow> string \<Rightarrow> tensor \<Rightarrow> tensor" where
  "load_entry src k t =
     (case map_of src k of Some s \<Rightarrow> if length s = length t then s else t | None \<Rightarrow> t)"

definition load_state_dict :: "state_dict \<Rightarrow> state_dict \<Rightarrow> bool \<Rightarrow> state_dict \<times> bool" where
  "load_state_dict dst src strict =
     (map (\<lambda>(k, t). (k, load_entry src k t)) dst,
      list_ex (\<lambda>(k, t). case map_of src k of Some s \<Rightarrow> length s \<noteq> length t | None \<Rightarrow> False) dst \<or>
      (strict \<and>
        (list_ex (\<lambda>(k, t). map_of src k = None) dst \<or> list_ex (\<lambda>(k, s). map_of dst k = None) src)))"

text \<open>\<open>tl_m.bn.weight.data.copy_(v)\<close> on the entry \<open>name\<close> of the module's state.\<close>

fun put_entry :: "string \<Rightarrow> tensor \<Rightarrow> state_dict \<Rightarrow> state_dict" where
  "put_entry name v [] = []"
| "put_entry name v ((k, x) # sd) =
     (if k = name then (k, v) # sd else (k, x) # put_entry name v sd)"

definition copy_param :: "state_dict \<Rightarrow> string \<Rightarrow> tensor \<Rightarrow> error + state_dict" where
  "copy_param sd name src =
     (case map_of sd name of
        None \<Rightarrow> Inl AttributeError
      | Some t \<Rightarrow>
          (case tensor_copy t src of
             Inl e \<Rightarrow> Inl e
           | Inr v \<Rightarrow> Inr (put_entry name v sd)))"

text \<open>
  The body that \<open>transfer_learning\<close> runs on a pair of modules, in the AlexNet branch
  and in both ResNet branches: a strict load, and when it raises a non-strict load
  followed by the copy of the passport's scale and bias.
\<close>

definition load_module :: "module \<Rightarrow> module \<Rightarrow> error + module" where
  "load_module tl_m self_m =
     (case load_state_dict (params tl_m) (params self_m) True of
        (sd1, False) \<Rightarrow> Inr (tl_m\<lparr>params := sd1\<rparr>)
      | (sd1, True) \<Rightarrow>
          (case load_state_dict sd1 (params self_m) False of
             (sd2, True) \<Rightarrow> Inl RuntimeError
           | (sd2, False) \<Rightarrow>
               (case passport self_m of
                  None \<Rightarrow> Inl AttributeError
                | Some pb \<Rightarrow>
                    (case copy_param sd2 ''bn.weight'' (get_scale pb) of
                       Inl e \<Rightarrow> Inl e
                     | Inr sd3 \<Rightarrow>
                         (case copy_param sd3 ''bn.bias'' (get_bias pb) of
                            Inl e \<Rightarrow> Inl e
                          | Inr sd4 \<Rightarrow> Inr (tl_m\<lparr>params := sd4\<rparr>))))))"

text \<open>
  The fallback loop. \<open>visit\<close> lists the positions of the modules it reaches: every
  module of \<open>features\<close> for AlexNet, the modules named in the passport configuration for
  a ResNet (a name that resolves to no module raises).
\<close>

fun load_modules :: "nat list \<Rightarrow> module list \<Rightarrow> module list \<Rightarrow> error + module list" where
  "load_modules [] tl_model self_model = Inr tl_model"
| "load_modules (i # visit) tl_model self_model =
     (if i < length tl_model \<and> i < length self_model
      then (case load_module (tl_model ! i) (self_model ! i) of
              Inl e \<Rightarrow> Inl e
            | Inr m \<Rightarrow> load_modules visit (tl_model[i := m]) self_model)
      else Inl AttributeError)"

text \<open>
  \<open>tl_model.load_state_dict(self.model.state_dict())\<close>, strict, on the whole model: the
  modules are loaded pairwise; a module with parameters that has no partner is a missing
  or an unexpected key.
\<close>

definition load_model :: "module list \<Rightarrow> module list \<Rightarrow> module list \<times> bool" where
  "load_model tl_model self_model =
     (map (\<lambda>(t, s). t\<lparr>params := fst (load_state_dict (params t) (params s) True)\<rparr>)
        (zip tl_model self_model) @ drop (length self_model) tl_model,
      list_ex (\<lambda>(t, s). snd (load_state_dict (params t) (params s) True)) (zip tl_model self_model) \<or>
      list_ex (\<lambda>t. params t \<noteq> []) (drop (length self_model) tl_model) \<or>
      list_ex (\<lambda>s. params s \<noteq> []) (drop (length tl_model) self_model))"

text \<open>The \<open>try\<close> / \<open>except\<close> of \<open>transfer_learning\<close> that loads the clone model.\<close>

definition load_clone :: "nat list \<Rightarrow> module list \<Rightarrow> module list \<Rightarrow> error + module list" where
  "load_clone visit tl_model self_model =
     (case load_model tl_model self_model of
        (tl1, False) \<Rightarrow> Inr tl1
      | (tl1, True) \<Rightarrow> load_modules visit tl1 self_model)"

section \<open>Notions used to state the properties\<close>

text \<open>
  \<open>t[is] *= -1\<close> as the specification writes the flip: the entries at the positions
  in \<open>is\<close> are negated, every other entry is kept.
\<close>

definition flip_at :: "tensor \<Rightarrow> int list \<Rightarrow> tensor" where
  "flip_at t is = map (\<lambda>(j, x). if int j \<in> set is then - x else x) (zip [0..<length t] t)"

text \<open>No index of the pool is negative, as for every output of \<open>randperm\<close>.\<close>

definition nonneg :: "int list \<Rightarrow> bool" where
  "nonneg is = list_all (\<lambda>i. 0 \<le> i) is"

text \<open>
  For a pool without negative indices: the local indices a layer of \<open>c\<close> channels
  consumes, and the pool it leaves.
\<close>

definition layer_widxs :: "nat \<Rightarrow> int list \<Rightarrow> int list" where
  "layer_widxs c is = filter (\<lambda>i. i < int c) is"

definition layer_rest :: "nat \<Rightarrow> int list \<Rightarrow> int list" where
  "layer_rest c is = map (\<lambda>i. i - int c) (filter (\<lambda>i. int c \<le> i) is)"

text \<open>The channel counts of the layers behind a list of references.\<close>

definition layer_sizes :: "'k model \<Rightarrow> 'k pname list \<Rightarrow> nat list" where
  "layer_sizes m rs = map (\<lambda>r. case m r of None \<Rightarrow> 0 | Some w \<Rightarrow> length (data w)) rs"

text \<open>
  The partition of the global index space: layer \<open>l\<close> owns the global indices from
  \<open>offset cs l\<close> (the prefix sum of the channel counts before it) up to
  \<open>offset cs (l + 1)\<close>, and \<open>layer_slice cs is l\<close> is the part of the selection
  \<open>is\<close> that falls into layer \<open>l\<close>, as local indices.
\<close>

definition offset :: "nat list \<Rightarrow> nat \<Rightarrow> nat" where
  "offset cs l = sum_list (take l cs)"

definition layer_slice :: "nat list \<Rightarrow> int list \<Rightarrow> nat \<Rightarrow> int list" where
  "layer_slice cs is l =
     map (\<lambda>g. g - int (offset cs l))
       (filter (\<lambda>g. int (offset cs l) \<le> g \<and> g < int (offset cs (Suc l))) is)"

text \<open>
  The fraction of the channels of a layer whose sign after the flip equals the sign before
  it, and the arithmetic mean of a list.
\<close>

definition layer_similarity :: "tensor \<Rightarrow> tensor \<Rightarrow> real" where
  "layer_similarity before after =
     real (length (filter (\<lambda>j. sign (after ! j) = sign (before ! j)) [0..<length before]))
       / real (length before)"

definition mean :: "real list \<Rightarrow> real" where
  "mean xs = sum_list xs / real (length xs)"

text \<open>
  The model after the second loop over \<open>plkeys\<close>, in closed form: the weights of the
  keyed blocks are trainable, their biases are zero and trainable, nothing else changed.
\<close>

definition collected :: "'k list \<Rightarrow> 'k model \<Rightarrow> 'k model" where
  "collected ks m n =
     (case n of
        BnWeight k \<Rightarrow> if k \<in> set ks then map_option (\<lambda>w. w\<lparr>requires_grad := True\<rparr>) (m n) else m n
      | BnBias k \<Rightarrow>
          if k \<in> set ks
          then map_option (\<lambda>b. \<lparr>data = tensor_zero (data b), requires_grad = True\<rparr>) (m n)
          else m n
      | _ \<Rightarrow> m n)"

text \<open>The batch-norm weight or bias of a block whose key is in \<open>ks\<close>.\<close>

definition affine_of :: "'k list \<Rightarrow> 'k pname \<Rightarrow> bool" where
  "affine_of ks n =
     (case n of BnWeight k \<Rightarrow> k \<in> set ks | BnBias k \<Rightarrow> k \<in> set ks | _ \<Rightarrow> False)"

text \<open>The names and shapes of a state dict.\<close>

definition shape :: "state_dict \<Rightarrow> (string \<times> nat) list" where
  "shape sd = map (\<lambda>(k, t). (k, length t)) sd"

text \<open>
  A module of the clone and the module of the passport model at the same place have
  matching architecture: no tensor they share by name differs in shape; a plain module has
  the same names as the clone's; a passport block has other names than the clone's, and
  its scale and bias have the lengths of the clone's \<open>bn.weight\<close> and \<open>bn.bias\<close>.
\<close>

definition matching :: "module \<Rightarrow> module \<Rightarrow> bool" where
  "matching tl_m self_m =
     (list_all (\<lambda>(k, n). case map_of (params self_m) k of Some s \<Rightarrow> length s = n | None \<Rightarrow> True)
        (shape (params tl_m)) \<and>
      (case passport self_m of
         None \<Rightarrow> set (map fst (shape (params tl_m))) = set (map fst (params self_m))
       | Some pb \<Rightarrow>
           set (map fst (shape (params tl_m))) \<noteq> set (map fst (params self_m)) \<and>
           map_of (shape (params tl_m)) ''bn.weight'' = Some (length (get_scale pb)) \<and>
           map_of (shape (params tl_m)) ''bn.bias'' = Some (length (get_bias pb))))"

text \<open>
  What the claim promises of a module \<open>m\<close> of the clone after the load, for the passport
  block \<open>self_m\<close> at its place: \<open>bn.weight\<close> and \<open>bn.bias\<close> hold the passport's scale
  and bias, and every other tensor the two share by name holds the passport model's value.
\<close>

definition restored :: "module \<Rightarrow> module \<Rightarrow> bool" where
  "restored self_m m =
     (case passport self_m of
        None \<Rightarrow> True
      | Some pb \<Rightarrow>
          map_of (params m) ''bn.weight'' = Some (get_scale pb) \<and>
          map_of (params m) ''bn.bias'' = Some (get_bias pb) \<and>
          list_all (\<lambda>(k, t). k = ''bn.weight'' \<or> k = ''bn.bias'' \<or>
                      (case map_of (params self_m) k of Some s \<Rightarrow> map_of (params m) k = Some s | None \<Rightarrow> True))
            (params m))"

section \<open>Small models for the worked examples\<close>

text \<open>
  Two attacked blocks (keys 0 and 1, with 2 and 3 channels), one block that carries no
  passport (key 2) and one classifier parameter; a pool of two selected indices; and the
  scale and bias of the two passport blocks.
\<close>

definition example_model :: "nat model" where
  "example_model =
     [ConvWeight 0 \<mapsto> \<lparr>data = [1 / 2, - 1 / 4], requires_grad = True\<rparr>,
      BnWeight 0 \<mapsto> \<lparr>data = [2, - 3], requires_grad = True\<rparr>,
      BnBias 0 \<mapsto> \<lparr>data = [1 / 2, 1 / 4], requires_grad = True\<rparr>,
      ConvWeight 1 \<mapsto> \<lparr>data = [1, 2, 3], requires_grad = True\<rparr>,
      BnWeight 1 \<mapsto> \<lparr>data = [0, - 1, 4], requires_grad = True\<rparr>,
      BnBias 1 \<mapsto> \<lparr>data = [1, 1, 1], requires_grad = True\<rparr>,
      BnWeight 2 \<mapsto> \<lparr>data = [5], requires_grad = True\<rparr>,
      BnBias 2 \<mapsto> \<lparr>data = [7], requires_grad = True\<rparr>,
      Other 0 \<mapsto> \<lparr>data = [3, 3], requires_grad = True\<rparr>]"

definition example_state :: "nat attack_state" where
  "example_state = \<lparr>net = example_model, idxs = [3, 0], sim = Some 0, consumed = []\<rparr>"

definition example_passport :: "nat \<rightharpoonup> passblock" where
  "example_passport =
     [0 \<mapsto> \<lparr>get_scale = [2, - 3], get_bias = [1 / 2, 1 / 4]\<rparr>,
      1 \<mapsto> \<lparr>get_scale = [0, - 1, 4], get_bias = [1, 1, 1]\<rparr>]"

text \<open>
  A clone with two blocks, and a passport model whose first block carries a passport (it
  has no \<open>bn.weight\<close> and \<open>bn.bias\<close>, and a key buffer the clone lacks) and whose second
  block is plain.
\<close>

definition example_clone :: "module list" where
  "example_clone =
     [\<lparr>params = [(''conv.weight'', [0, 0]), (''bn.weight'', [1, 1]), (''bn.bias'', [0, 0]),
                 (''bn.running_mean'', [0, 0])],
       passport = None\<rparr>,
      \<lparr>params = [(''conv.weight'', [0]), (''bn.weight'', [1]), (''bn.bias'', [0])],
       passport = None\<rparr>]"

definition example_private :: "module list" where
  "example_private =
     [\<lparr>params = [(''conv.weight'', [3, 4]), (''key_private'', [7]), (''bn.running_mean'', [5, 6])],
       passport = Some \<lparr>get_scale = [2, - 3], get_bias = [1 / 2, 1 / 4]\<rparr>\<rparr>,
      \<lparr>params = [(''conv.weight'', [8]), (''bn.weight'', [9]), (''bn.bias'', [10])],
       passport = None\<rparr>]"

section \<open>The flip of one layer\<close>

lemma length_index_put: "length (index_put t jvs) = length t"
  by (induction t jvs rule: index_put.induct) auto

lemma nth_index_put:
  "k < length t \<Longrightarrow>
   index_put t (map (\<lambda>j. (j, f j)) js) ! k = (if k \<in> set js then f k else t ! k)"
proof (induction js arbitrary: t)
  case Nil
  then show ?case by simp
next
  case (Cons j js)
  then show ?case by (cases "k = j") (auto simp: nth_list_update)
qed

lemma length_flip_at: "length (flip_at t is) = length t"
  by (simp add: flip_at_def)

lemma nth_flip_at:
  "j < length t \<Longrightarrow> flip_at t is ! j = (if int j \<in> set is then - (t ! j) else t ! j)"
  by (simp add: flip_at_def)

lemma index_imul_nonneg:
  assumes "nonneg is" and "list_all (\<lambda>i. i < int (length t)) is"
  shows "index_imul t is (- 1) = Inr (flip_at t is)"
proof -
  have ok: "list_all (index_ok (length t)) is"
    using assms by (auto simp: nonneg_def list_all_iff index_ok_def)
  have w: "map (\<lambda>i. (wrap_index (length t) i, t ! wrap_index (length t) i * (- 1))) is
         = map (\<lambda>j. (j, - (t ! j))) (map nat is)"
    using assms(1) by (auto simp: nonneg_def list_all_iff wrap_index_def)
  have "index_put t (map (\<lambda>j. (j, - (t ! j))) (map nat is)) = flip_at t is"
  proof (rule nth_equalityI)
    show "length (index_put t (map (\<lambda>j. (j, - (t ! j))) (map nat is))) = length (flip_at t is)"
      by (simp add: length_index_put length_flip_at)
  next
    fix k assume "k < length (index_put t (map (\<lambda>j. (j, - (t ! j))) (map nat is)))"
    then have k: "k < length t" by (simp add: length_index_put)
    have e: "(k \<in> set (map nat is)) = (int k \<in> set is)"
      using assms(1) by (force simp: nonneg_def list_all_iff image_iff)
    have "index_put t (map (\<lambda>j. (j, - (t ! j))) (map nat is)) ! k
            = (if k \<in> set (map nat is) then - (t ! k) else t ! k)"
      using k by (rule nth_index_put)
    also have "\<dots> = flip_at t is ! k"
      unfolding e using k by (simp add: nth_flip_at)
    finally show "index_put t (map (\<lambda>j. (j, - (t ! j))) (map nat is)) ! k = flip_at t is ! k" .
  qed
  then have "index_put t (map (\<lambda>i. (wrap_index (length t) i, t ! wrap_index (length t) i * (- 1))) is)
               = flip_at t is"
    by (simp only: w)
  then show ?thesis using ok by (simp only: index_imul_def if_True)
qed

lemma flip_layer_nonneg:
  assumes "nonneg is"
  shows "flip_layer w is =
     Inr (flip_at (tsign w) (layer_widxs (length w) is),
          eq_mean (tsign (flip_at (tsign w) (layer_widxs (length w) is))) (tsign w),
          layer_widxs (length w) is,
          layer_rest (length w) is)"
proof -
  have 1: "nonneg (layer_widxs (length w) is)"
    using assms by (auto simp: nonneg_def layer_widxs_def list_all_iff)
  have 2: "list_all (\<lambda>i. i < int (length (tsign w))) (layer_widxs (length w) is)"
    by (auto simp: layer_widxs_def list_all_iff tsign_def)
  show ?thesis
    using index_imul_nonneg[OF 1 2]
    by (simp add: flip_layer_def Let_def layer_widxs_def layer_rest_def)
qed

lemma nonneg_layer_rest: "nonneg (layer_rest c is)"
  by (auto simp: nonneg_def layer_rest_def list_all_iff)

lemma flip_layer_shape:
  "flip_layer w is = Inr (w', s, wi, rest) \<Longrightarrow>
     length w' = length w \<and> s = eq_mean (tsign w') (tsign w)"
  by (auto simp: flip_layer_def Let_def index_imul_def length_index_put tsign_def
           split: sum.splits if_splits)

lemma flip_layer_nonneg_dest:
  assumes "flip_layer w is = Inr (w', s, wi, rest)" "nonneg is"
  shows "wi = layer_widxs (length w) is" "rest = layer_rest (length w) is"
        "w' = flip_at (tsign w) wi"
  using assms(1) flip_layer_nonneg[OF assms(2), of w] by auto

lemma sign_sign: "sign (sign x) = sign x"
  by (simp add: sign_def)

lemma sign_minus: "sign (- x) = - sign x"
  by (simp add: sign_def)

lemma length_filter_zip:
  "length xs = length ys \<Longrightarrow>
     length (filter (\<lambda>(x, y). P x y) (zip xs ys)) = length (filter (\<lambda>j. P (xs ! j) (ys ! j)) [0..<length xs])"
proof -
  assume l: "length xs = length ys"
  have "zip xs ys = map (\<lambda>j. (xs ! j, ys ! j)) [0..<length xs]"
    using l by (intro nth_equalityI) auto
  then have "filter (\<lambda>(x, y). P x y) (zip xs ys)
           = map (\<lambda>j. (xs ! j, ys ! j)) (filter (\<lambda>j. P (xs ! j) (ys ! j)) [0..<length xs])"
    by (simp add: filter_map o_def)
  then show ?thesis by simp
qed

lemma eq_mean_similarity:
  assumes "length w' = length w" "w \<noteq> []"
  shows "eq_mean (tsign w') (tsign w) = Some (layer_similarity w w')"
proof -
  have "length (filter (\<lambda>(x, y). x = y) (zip (tsign w') (tsign w)))
        = length (filter (\<lambda>j. tsign w' ! j = tsign w ! j) [0..<length (tsign w')])"
    using assms(1) by (intro length_filter_zip) (simp add: tsign_def)
  also have "\<dots> = length (filter (\<lambda>j. sign (w' ! j) = sign (w ! j)) [0..<length w])"
    using assms(1) by (intro arg_cong[where f=length] filter_cong) (auto simp: tsign_def)
  finally show ?thesis using assms by (auto simp: eq_mean_def layer_similarity_def tsign_def)
qed

section \<open>Prefix sums of the layer sizes\<close>

lemma offset_0: "offset cs 0 = 0"
  by (simp add: offset_def)

lemma offset_Cons_Suc: "offset (c # cs) (Suc l) = c + offset cs l"
  by (simp add: offset_def)

lemma offset_Suc: "l < length cs \<Longrightarrow> offset cs (Suc l) = offset cs l + cs ! l"
  by (simp add: offset_def take_Suc_conv_app_nth)

lemma offset_length: "offset cs (length cs) = sum_list cs"
  by (simp add: offset_def)

lemma offset_mono: "l \<le> l' \<Longrightarrow> offset cs l \<le> offset cs l'"
proof -
  assume "l \<le> l'"
  then have "take l' cs = take l cs @ take (l' - l) (drop l cs)"
    by (metis le_add_diff_inverse take_add)
  then show ?thesis by (simp add: offset_def)
qed

lemma find_layer:
  "g < sum_list cs \<Longrightarrow> \<exists>l<length cs. offset cs l \<le> g \<and> g < offset cs (Suc l)"
proof (induction cs arbitrary: g)
  case Nil
  then show ?case by simp
next
  case (Cons c cs)
  show ?case
  proof (cases "g < c")
    case True
    then have "offset (c # cs) 0 \<le> g \<and> g < offset (c # cs) (Suc 0)"
      by (simp add: offset_def)
    then show ?thesis by blast
  next
    case False
    then have "g - c < sum_list cs" using Cons.prems by simp
    from Cons.IH[OF this] obtain l where
      l: "l < length cs" "offset cs l \<le> g - c" "g - c < offset cs (Suc l)" by blast
    have "Suc l < length (c # cs) \<and> offset (c # cs) (Suc l) \<le> g \<and> g < offset (c # cs) (Suc (Suc l))"
      using l False unfolding offset_Cons_Suc by (simp; linarith)
    then show ?thesis by blast
  qed
qed

lemma layer_unique:
  assumes "offset cs l \<le> g" "g < offset cs (Suc l)" "offset cs l' \<le> g" "g < offset cs (Suc l')"
  shows "l = l'"
proof (rule ccontr)
  assume "l \<noteq> l'"
  then consider "Suc l \<le> l'" | "Suc l' \<le> l" by linarith
  then show False
  proof cases
    case 1
    from offset_mono[OF this, of cs] assms show False by simp
  next
    case 2
    from offset_mono[OF this, of cs] assms show False by simp
  qed
qed

lemma set_layer_slice:
  "set (layer_slice cs is l) =
     (\<lambda>g. g - int (offset cs l)) ` {g \<in> set is. int (offset cs l) \<le> g \<and> g < int (offset cs (Suc l))}"
  by (auto simp: layer_slice_def)

lemma layer_slice_local_range:
  assumes "l < length cs" "i \<in> set (layer_slice cs is l)"
  shows "0 \<le> i \<and> i < int (cs ! l)"
  using assms by (auto simp: set_layer_slice offset_Suc)

lemma global_index_one_layer:
  assumes "g \<in> set is" "0 \<le> g" "g < int (sum_list cs)"
  shows "\<exists>!l. l < length cs \<and> g - int (offset cs l) \<in> set (layer_slice cs is l)"
proof -
  have "nat g < sum_list cs" using assms by linarith
  from find_layer[OF this] obtain l where
    l: "l < length cs" "offset cs l \<le> nat g" "nat g < offset cs (Suc l)" by blast
  have in_l: "int (offset cs l) \<le> g" "g < int (offset cs (Suc l))"
    using l assms(2) by linarith+
  have ex: "l < length cs \<and> g - int (offset cs l) \<in> set (layer_slice cs is l)"
    using l(1) in_l assms(1) by (auto simp: set_layer_slice)
  have un: "l' = l" if "l' < length cs \<and> g - int (offset cs l') \<in> set (layer_slice cs is l')" for l'
  proof -
    from that obtain g' where
      g': "g' \<in> set is" "int (offset cs l') \<le> g'" "g' < int (offset cs (Suc l'))"
          "g - int (offset cs l') = g' - int (offset cs l')"
      by (auto simp: set_layer_slice)
    then have "g' = g" by simp
    with g' have "offset cs l' \<le> nat g" "nat g < offset cs (Suc l')"
      using assms(2) by linarith+
    from layer_unique[OF this l(2,3)] show ?thesis .
  qed
  from ex un show ?thesis by blast
qed

lemma layer_slice_0:
  "nonneg is \<Longrightarrow> layer_slice (c # cs) is 0 = layer_widxs c is"
proof -
  assume "nonneg is"
  then have "filter (\<lambda>g. 0 \<le> g \<and> g < int c) is = filter (\<lambda>g. g < int c) is"
    by (intro filter_cong) (auto simp: nonneg_def list_all_iff)
  then show ?thesis by (simp add: layer_slice_def offset_def layer_widxs_def)
qed

lemma layer_slice_Suc:
  "layer_slice (c # cs) is (Suc l) = layer_slice cs (layer_rest c is) l"
proof -
  have "filter (\<lambda>g. int (c + offset cs l) \<le> g \<and> g < int (c + offset cs (Suc l))) is
      = filter (\<lambda>g. int (offset cs l) \<le> g - int c \<and> g - int c < int (offset cs (Suc l)))
          (filter (\<lambda>g. int c \<le> g) is)"
    by (induction "is") auto
  then show ?thesis
    by (simp add: layer_slice_def offset_def layer_rest_def filter_map o_def)
qed

lemma layer_rest_rest: "layer_rest c' (layer_rest c is) = layer_rest (c + c') is"
  by (induction "is") (auto simp: layer_rest_def)

lemma length_widxs_rest: "length (layer_widxs c is) + length (layer_rest c is) = length is"
proof -
  have "filter (\<lambda>i. int c \<le> i) is = filter (\<lambda>i. \<not> i < int c) is"
    by (intro filter_cong) auto
  then show ?thesis
    by (simp add: layer_widxs_def layer_rest_def sum_length_filter_compl)
qed

lemma layer_rest_empty:
  "layer_rest c is = [] \<longleftrightarrow> list_all (\<lambda>g. g < int c) is"
  by (auto simp: layer_rest_def list_all_iff filter_empty_conv)

section \<open>The flip loop\<close>

lemma flip_loop_ConsE:
  assumes "flip_loop (r # rs) st = Inr st'"
  obtains w w' s wi rest where
    "net st r = Some w"
    "flip_layer (data w) (idxs st) = Inr (w', s, wi, rest)"
    "flip_loop rs \<lparr>net = (net st)(r \<mapsto> w\<lparr>data := w'\<rparr>), idxs = rest,
                   sim = fadd (sim st) s, consumed = consumed st @ [wi]\<rparr> = Inr st'"
  using assms by (auto split: option.splits sum.splits prod.splits)

lemma flip_loop_frame:
  "flip_loop rs st = Inr st' \<Longrightarrow> n \<notin> set rs \<Longrightarrow> net st' n = net st n"
proof (induction rs arbitrary: st)
  case Nil
  then show ?case by simp
next
  case (Cons r rs)
  from Cons.prems(1) obtain w w' s wi rest where
    step: "flip_loop rs \<lparr>net = (net st)(r \<mapsto> w\<lparr>data := w'\<rparr>), idxs = rest,
                   sim = fadd (sim st) s, consumed = consumed st @ [wi]\<rparr> = Inr st'"
    by (rule flip_loop_ConsE)
  from Cons.IH[OF step] Cons.prems(2) show ?case by simp
qed

lemma flip_loop_shape:
  "flip_loop rs st = Inr st' \<Longrightarrow>
     map_option requires_grad (net st' n) = map_option requires_grad (net st n) \<and>
     map_option (\<lambda>p. length (data p)) (net st' n) = map_option (\<lambda>p. length (data p)) (net st n)"
proof (induction rs arbitrary: st)
  case Nil
  then show ?case by simp
next
  case (Cons r rs)
  from Cons.prems(1) obtain w w' s wi rest where
    w: "net st r = Some w" and
    fl: "flip_layer (data w) (idxs st) = Inr (w', s, wi, rest)" and
    step: "flip_loop rs \<lparr>net = (net st)(r \<mapsto> w\<lparr>data := w'\<rparr>), idxs = rest,
                   sim = fadd (sim st) s, consumed = consumed st @ [wi]\<rparr> = Inr st'"
    by (rule flip_loop_ConsE)
  have len: "length w' = length (data w)" using flip_layer_shape[OF fl] by simp
  from Cons.IH[OF step] w len show ?case by (cases "n = r") simp_all
qed

lemma layer_sizes_update:
  "m r = Some w \<Longrightarrow> length w' = length (data w) \<Longrightarrow>
     layer_sizes (m(r \<mapsto> w\<lparr>data := w'\<rparr>)) rs = layer_sizes m rs"
  by (simp add: layer_sizes_def)

lemma flip_loop_returns:
  "list_all (\<lambda>r. net st r \<noteq> None) rs \<Longrightarrow> nonneg (idxs st) \<Longrightarrow> \<exists>st'. flip_loop rs st = Inr st'"
proof (induction rs arbitrary: st)
  case Nil
  then show ?case by simp
next
  case (Cons r rs)
  from Cons.prems(1) obtain w where w: "net st r = Some w" by auto
  let ?st1 = "\<lparr>net = (net st)(r \<mapsto> w\<lparr>data := flip_at (tsign (data w)) (layer_widxs (length (data w)) (idxs st))\<rparr>),
               idxs = layer_rest (length (data w)) (idxs st),
               sim = fadd (sim st) (eq_mean (tsign (flip_at (tsign (data w)) (layer_widxs (length (data w)) (idxs st)))) (tsign (data w))),
               consumed = consumed st @ [layer_widxs (length (data w)) (idxs st)]\<rparr>"
  have 1: "list_all (\<lambda>r. net ?st1 r \<noteq> None) rs"
    using Cons.prems(1) by (auto simp: list_all_iff)
  have 2: "nonneg (idxs ?st1)" by (simp add: nonneg_layer_rest)
  from Cons.IH[OF 1 2] obtain st' where "flip_loop rs ?st1 = Inr st'" by blast
  then have "flip_loop (r # rs) st = Inr st'"
    using w flip_layer_nonneg[OF Cons.prems(2), of "data w"] by simp
  then show ?case by blast
qed

lemma flip_loop_consumed:
  "flip_loop rs st = Inr st' \<Longrightarrow> nonneg (idxs st) \<Longrightarrow>
     consumed st' = consumed st @ map (layer_slice (layer_sizes (net st) rs) (idxs st)) [0..<length rs]
     \<and> idxs st' = layer_rest (sum_list (layer_sizes (net st) rs)) (idxs st)"
proof (induction rs arbitrary: st)
  case Nil
  then have "filter (\<lambda>i. 0 \<le> i) (idxs st) = idxs st"
    by (simp add: nonneg_def list_all_iff)
  with Nil show ?case by (simp add: layer_sizes_def layer_rest_def)
next
  case (Cons r rs)
  from Cons.prems(1) obtain w w' s wi rest where
    w: "net st r = Some w" and
    fl: "flip_layer (data w) (idxs st) = Inr (w', s, wi, rest)" and
    step: "flip_loop rs \<lparr>net = (net st)(r \<mapsto> w\<lparr>data := w'\<rparr>), idxs = rest,
                   sim = fadd (sim st) s, consumed = consumed st @ [wi]\<rparr> = Inr st'"
    by (rule flip_loop_ConsE)
  let ?c = "length (data w)"
  have len: "length w' = ?c" using flip_layer_shape[OF fl] by simp
  have wi: "wi = layer_widxs ?c (idxs st)" and rest: "rest = layer_rest ?c (idxs st)"
    using fl flip_layer_nonneg[OF Cons.prems(2), of "data w"] by simp_all
  have sz: "layer_sizes (net st) (r # rs) = ?c # layer_sizes (net st) rs"
    using w by (simp add: layer_sizes_def)
  have sz1: "layer_sizes ((net st)(r \<mapsto> w\<lparr>data := w'\<rparr>)) rs = layer_sizes (net st) rs"
    using w len by (rule layer_sizes_update)
  have nn: "nonneg rest" by (simp add: rest nonneg_layer_rest)
  have nn1: "nonneg (idxs \<lparr>net = (net st)(r \<mapsto> w\<lparr>data := w'\<rparr>), idxs = rest,
                   sim = fadd (sim st) s, consumed = consumed st @ [wi]\<rparr>)"
    using nn by (simp only: attack_state.select_convs)
  have ih: "consumed st' = (consumed st @ [wi]) @ map (layer_slice (layer_sizes (net st) rs) rest) [0..<length rs]"
    and ih2: "idxs st' = layer_rest (sum_list (layer_sizes (net st) rs)) rest"
    using Cons.IH[OF step nn1] by (simp_all only: attack_state.select_convs sz1)
  have "map (layer_slice (?c # layer_sizes (net st) rs) (idxs st)) [0..<length (r # rs)]
        = wi # map (layer_slice (layer_sizes (net st) rs) rest) [0..<length rs]"
    using layer_slice_0[OF Cons.prems(2)]
    by (simp add: upt_conv_Cons map_Suc_upt[symmetric] layer_slice_Suc wi rest del: upt_Suc)
  then show ?case using ih ih2 by (simp add: sz rest layer_rest_rest)
qed

lemma flip_loop_consumed_prefix:
  "flip_loop rs st = Inr st' \<Longrightarrow>
     \<exists>ys. consumed st' = consumed st @ ys \<and> length ys = length rs"
proof (induction rs arbitrary: st)
  case Nil
  then show ?case by simp
next
  case (Cons r rs)
  from Cons.prems(1) obtain w w' s wi rest where
    step: "flip_loop rs \<lparr>net = (net st)(r \<mapsto> w\<lparr>data := w'\<rparr>), idxs = rest,
                   sim = fadd (sim st) s, consumed = consumed st @ [wi]\<rparr> = Inr st'"
    by (rule flip_loop_ConsE)
  from Cons.IH[OF step] obtain ys where
    "consumed st' = (consumed st @ [wi]) @ ys" "length ys = length rs"
    by (auto simp only: attack_state.select_convs)
  then have "consumed st' = consumed st @ (wi # ys) \<and> length (wi # ys) = length (r # rs)"
    by simp
  then show ?case by blast
qed

lemma flip_loop_weights:
  "flip_loop rs st = Inr st' \<Longrightarrow> distinct rs \<Longrightarrow> nonneg (idxs st) \<Longrightarrow> l < length rs \<Longrightarrow>
     \<exists>w. net st (rs ! l) = Some w \<and>
         net st' (rs ! l) =
           Some (w\<lparr>data := flip_at (tsign (data w)) (consumed st' ! (length (consumed st) + l))\<rparr>)"
proof (induction rs arbitrary: st l)
  case Nil
  then show ?case by simp
next
  case (Cons r rs)
  from Cons.prems(1) obtain w w' s wi rest where
    w: "net st r = Some w" and
    fl: "flip_layer (data w) (idxs st) = Inr (w', s, wi, rest)" and
    step: "flip_loop rs \<lparr>net = (net st)(r \<mapsto> w\<lparr>data := w'\<rparr>), idxs = rest,
                   sim = fadd (sim st) s, consumed = consumed st @ [wi]\<rparr> = Inr st'"
    by (rule flip_loop_ConsE)
  let ?st1 = "\<lparr>net = (net st)(r \<mapsto> w\<lparr>data := w'\<rparr>), idxs = rest,
                   sim = fadd (sim st) s, consumed = consumed st @ [wi]\<rparr>"
  have w': "w' = flip_at (tsign (data w)) wi" and rest: "rest = layer_rest (length (data w)) (idxs st)"
    using flip_layer_nonneg_dest[OF fl Cons.prems(3)] by simp_all
  from flip_loop_consumed_prefix[OF step] obtain ys where
    ys: "consumed st' = (consumed st @ [wi]) @ ys"
    by (auto simp only: attack_state.select_convs)
  show ?case
  proof (cases l)
    case 0
    have "r \<notin> set rs" using Cons.prems(2) by simp
    from flip_loop_frame[OF step this] have "net st' r = Some (w\<lparr>data := w'\<rparr>)" by simp
    moreover have "consumed st' ! (length (consumed st) + 0) = wi"
      using ys by (simp add: nth_append)
    ultimately show ?thesis using 0 w w' by simp
  next
    case (Suc l')
    have d: "distinct rs" and l': "l' < length rs" using Cons.prems(2,4) Suc by simp_all
    have nn: "nonneg (idxs ?st1)" by (simp add: rest nonneg_layer_rest)
    from Cons.IH[OF step d nn l'] obtain v where
      v: "net ?st1 (rs ! l') = Some v"
         "net st' (rs ! l') = Some (v\<lparr>data := flip_at (tsign (data v)) (consumed st' ! (length (consumed ?st1) + l'))\<rparr>)"
      by blast
    have ne: "rs ! l' \<noteq> r" using Cons.prems(2) l' by auto
    have "net st (rs ! l') = Some v" using v(1) ne by simp
    moreover have "length (consumed ?st1) + l' = length (consumed st) + l" using Suc by simp
    ultimately show ?thesis using v(2) Suc by simp
  qed
qed

lemma flip_loop_sim:
  "flip_loop rs st = Inr st' \<Longrightarrow> distinct rs \<Longrightarrow>
     sim st' = foldl fadd (sim st)
       (map (\<lambda>r. eq_mean (tsign (data (the (net st' r)))) (tsign (data (the (net st r))))) rs)"
proof (induction rs arbitrary: st)
  case Nil
  then show ?case by simp
next
  case (Cons r rs)
  from Cons.prems(1) obtain w w' s wi rest where
    w: "net st r = Some w" and
    fl: "flip_layer (data w) (idxs st) = Inr (w', s, wi, rest)" and
    step: "flip_loop rs \<lparr>net = (net st)(r \<mapsto> w\<lparr>data := w'\<rparr>), idxs = rest,
                   sim = fadd (sim st) s, consumed = consumed st @ [wi]\<rparr> = Inr st'"
    by (rule flip_loop_ConsE)
  let ?st1 = "\<lparr>net = (net st)(r \<mapsto> w\<lparr>data := w'\<rparr>), idxs = rest,
                   sim = fadd (sim st) s, consumed = consumed st @ [wi]\<rparr>"
  have r: "r \<notin> set rs" and d: "distinct rs" using Cons.prems(2) by simp_all
  have s: "s = eq_mean (tsign w') (tsign (data w))" using flip_layer_shape[OF fl] by simp
  have fin: "net st' r = Some (w\<lparr>data := w'\<rparr>)" using flip_loop_frame[OF step r] by simp
  have same: "map (\<lambda>r'. eq_mean (tsign (data (the (net st' r')))) (tsign (data (the (net ?st1 r'))))) rs
            = map (\<lambda>r'. eq_mean (tsign (data (the (net st' r')))) (tsign (data (the (net st r'))))) rs"
    using r by (intro map_cong) auto
  have "sim st' = foldl fadd (fadd (sim st) s)
       (map (\<lambda>r'. eq_mean (tsign (data (the (net st' r')))) (tsign (data (the (net st r'))))) rs)"
    using Cons.IH[OF step d] unfolding same by simp
  then show ?case using s fin w by simp
qed

lemma flip_loop_count:
  "flip_loop rs st = Inr st' \<Longrightarrow> nonneg (idxs st) \<Longrightarrow>
     sum_list (map length (consumed st')) + length (idxs st')
       = sum_list (map length (consumed st)) + length (idxs st)"
proof (induction rs arbitrary: st)
  case Nil
  then show ?case by simp
next
  case (Cons r rs)
  from Cons.prems(1) obtain w w' s wi rest where
    fl: "flip_layer (data w) (idxs st) = Inr (w', s, wi, rest)" and
    step: "flip_loop rs \<lparr>net = (net st)(r \<mapsto> w\<lparr>data := w'\<rparr>), idxs = rest,
                   sim = fadd (sim st) s, consumed = consumed st @ [wi]\<rparr> = Inr st'"
    by (rule flip_loop_ConsE)
  note d = flip_layer_nonneg_dest[OF fl Cons.prems(2)]
  have nn1: "nonneg (idxs \<lparr>net = (net st)(r \<mapsto> w\<lparr>data := w'\<rparr>), idxs = rest,
                   sim = fadd (sim st) s, consumed = consumed st @ [wi]\<rparr>)"
    by (simp add: d(2) nonneg_layer_rest)
  have "sum_list (map length (consumed st')) + length (idxs st')
         = sum_list (map length (consumed st @ [wi])) + length rest"
    using Cons.IH[OF step nn1] by (simp only: attack_state.select_convs)
  also have "\<dots> = sum_list (map length (consumed st)) + length (idxs st)"
    using length_widxs_rest[of "length (data w)" "idxs st"] by (simp add: d(1,2))
  finally show ?case .
qed

lemma foldl_fadd_Some:
  "foldl fadd (Some a) (map (\<lambda>x. Some (f x)) xs) = Some (a + sum_list (map f xs))"
  by (induction xs arbitrary: a) (simp_all add: fadd_def add.assoc)

section \<open>The selection\<close>

lemma is_randperm_set: "is_randperm n p \<Longrightarrow> set p = int ` {0..<n}"
proof -
  assume "is_randperm n p"
  then have "set_mset (mset p) = set_mset (mset (map int [0..<n]))"
    by (simp add: is_randperm_def)
  then show ?thesis by simp
qed

lemma is_randperm_length: "is_randperm n p \<Longrightarrow> length p = n"
proof -
  assume "is_randperm n p"
  then have "size (mset p) = size (mset (map int [0..<n]))"
    by (simp add: is_randperm_def)
  then show ?thesis by simp
qed


lemma set_slice_to: "set (slice_to xs k) \<subseteq> set xs"
  by (auto simp: slice_to_def dest: in_set_takeD)


lemma select_idxs_range:
  assumes "is_randperm n p"
  shows "list_all (\<lambda>g. 0 \<le> g \<and> g < int n) (select_idxs p n f)"
proof -
  have "set (select_idxs p n f) \<subseteq> int ` {0..<n}"
    using set_slice_to[of p] is_randperm_set[OF assms] by (simp add: select_idxs_def)
  then show ?thesis by (auto simp: list_all_iff)
qed

lemma select_idxs_length:
  assumes "is_randperm n p" "0 \<le> f" "f \<le> 1"
  shows "length (select_idxs p n f) = nat \<lfloor>real n * f\<rfloor>"
proof -
  have 0: "0 \<le> real n * f" using assms(2) by simp
  have "real n * f \<le> real n" using assms(2,3) by (simp add: mult_left_le)
  then have "\<lfloor>real n * f\<rfloor> \<le> int n" by linarith
  then have "nat \<lfloor>real n * f\<rfloor> \<le> length p" using is_randperm_length[OF assms(1)] by simp
  then show ?thesis using 0 by (simp add: select_idxs_def slice_to_def py_int_def)
qed

section \<open>The loops over the passport keys\<close>

lemma collected_Nil: "collected [] m = m"
  by (rule ext) (simp add: collected_def split: pname.splits)

lemma tensor_zero_idem: "tensor_zero (tensor_zero t) = tensor_zero t"
  by (simp add: tensor_zero_def)

lemma collected_step:
  assumes "m (BnWeight k) = Some w" "m (BnBias k) = Some b"
  shows "collected ks (m(BnWeight k \<mapsto> w\<lparr>requires_grad := True\<rparr>,
                         BnBias k \<mapsto> \<lparr>data = tensor_zero (data b), requires_grad = True\<rparr>))
         = collected (k # ks) m"
proof (rule ext)
  fix n
  show "collected ks (m(BnWeight k \<mapsto> w\<lparr>requires_grad := True\<rparr>,
                         BnBias k \<mapsto> \<lparr>data = tensor_zero (data b), requires_grad = True\<rparr>)) n
         = collected (k # ks) m n"
    using assms by (cases n) (auto simp: collected_def tensor_zero_idem)
qed

lemma layer_sizes_collect_step:
  assumes "m (BnWeight k) = Some w"
  shows "layer_sizes (m(BnWeight k \<mapsto> w\<lparr>requires_grad := True\<rparr>, BnBias k \<mapsto> b')) (map BnWeight ks)
         = layer_sizes m (map BnWeight ks)"
  using assms by (auto simp: layer_sizes_def)

lemma collect_weights_result:
  "collect_weights ks (m, rs0, t0) = Inr (m', rs, t) \<Longrightarrow>
     m' = collected ks m \<and> rs = rs0 @ map BnWeight ks \<and>
     t = t0 + sum_list (layer_sizes m (map BnWeight ks))"
proof (induction ks arbitrary: m rs0 t0)
  case Nil
  then show ?case by (simp add: collected_Nil layer_sizes_def)
next
  case (Cons k ks)
  from Cons.prems obtain w b where
    w: "m (BnWeight k) = Some w" and b: "m (BnBias k) = Some b" and
    step: "collect_weights ks
             (m(BnWeight k \<mapsto> w\<lparr>requires_grad := True\<rparr>,
                BnBias k \<mapsto> \<lparr>data = tensor_zero (data b), requires_grad = True\<rparr>),
              rs0 @ [BnWeight k], t0 + length (data w)) = Inr (m', rs, t)"
    by (auto split: option.splits)
  have sz: "layer_sizes m (map BnWeight (k # ks)) = length (data w) # layer_sizes m (map BnWeight ks)"
    using w by (simp add: layer_sizes_def)
  let ?m1 = "m(BnWeight k \<mapsto> w\<lparr>requires_grad := True\<rparr>,
                BnBias k \<mapsto> \<lparr>data = tensor_zero (data b), requires_grad = True\<rparr>)"
  have ih: "m' = collected ks ?m1 \<and> rs = (rs0 @ [BnWeight k]) @ map BnWeight ks \<and>
            t = (t0 + length (data w)) + sum_list (layer_sizes ?m1 (map BnWeight ks))"
    by (rule Cons.IH[OF step])
  have a: "collected ks ?m1 = collected (k # ks) m" by (rule collected_step[OF w b])
  have c: "layer_sizes ?m1 (map BnWeight ks) = layer_sizes m (map BnWeight ks)"
    using w by (rule layer_sizes_collect_step)
  from ih show ?case unfolding a c sz by simp
qed

lemma collect_weights_returns:
  "list_all (\<lambda>k. m (BnWeight k) \<noteq> None \<and> m (BnBias k) \<noteq> None) ks \<Longrightarrow>
     \<exists>m' rs t. collect_weights ks (m, rs0, t0) = Inr (m', rs, t)"
proof (induction ks arbitrary: m rs0 t0)
  case Nil
  then show ?case by simp
next
  case (Cons k ks)
  from Cons.prems obtain w b where
    w: "m (BnWeight k) = Some w" and b: "m (BnBias k) = Some b" by auto
  let ?m1 = "m(BnWeight k \<mapsto> w\<lparr>requires_grad := True\<rparr>,
                BnBias k \<mapsto> \<lparr>data = tensor_zero (data b), requires_grad = True\<rparr>)"
  have "list_all (\<lambda>k. ?m1 (BnWeight k) \<noteq> None \<and> ?m1 (BnBias k) \<noteq> None) ks"
    using Cons.prems by (auto simp: list_all_iff)
  from Cons.IH[OF this] obtain m' rs t where
    "collect_weights ks (?m1, rs0 @ [BnWeight k], t0 + length (data w)) = Inr (m', rs, t)" by blast
  then show ?case using w b by simp
qed

lemma collected_weight_data:
  "map_option data (collected ks m (BnWeight k)) = map_option data (m (BnWeight k))"
  by (cases "m (BnWeight k)") (simp_all add: collected_def)

lemma collected_flags:
  "(affine_of ks n \<longrightarrow> map_option requires_grad (collected ks m n) = map_option (\<lambda>p. True) (m n)) \<and>
   (\<not> affine_of ks n \<longrightarrow> collected ks m n = m n)"
  by (cases n; cases "m n") (auto simp: collected_def affine_of_def)

lemma affine_of_not_weight: "\<not> affine_of ks n \<Longrightarrow> n \<notin> set (map BnWeight ks)"
  by (auto simp: affine_of_def)

lemma apply_attack_InrE:
  assumes "apply_attack plkeys randperm flipperc m = Inr (st, s)"
  obtains t where
    "collect_weights plkeys (m, [], 0) = Inr (collected plkeys m, map BnWeight plkeys, t)"
    "flip_loop (map BnWeight plkeys)
       \<lparr>net = collected plkeys m, idxs = select_idxs (randperm t) t flipperc,
        sim = Some 0, consumed = []\<rparr> = Inr st"
proof -
  from assms obtain m1 rs t where
    col: "collect_weights plkeys (m, [], 0) = Inr (m1, rs, t)" and
    run: "flip_loop rs \<lparr>net = m1, idxs = select_idxs (randperm t) t flipperc,
        sim = Some 0, consumed = []\<rparr> = Inr st"
    by (auto simp: apply_attack_def split: sum.splits prod.splits)
  from collect_weights_result[OF col] have "m1 = collected plkeys m" "rs = map BnWeight plkeys"
    by simp_all
  with col run that show thesis by blast
qed

lemma load_affine_flags:
  "load_affine pm ks m = Inr m' \<Longrightarrow>
     (affine_of ks n \<longrightarrow> (\<exists>p. m' n = Some p \<and> requires_grad p)) \<and>
     (\<not> affine_of ks n \<longrightarrow> m' n = m n)"
proof (induction ks arbitrary: m)
  case Nil
  then show ?case by (simp add: affine_of_def split: pname.splits)
next
  case (Cons k ks)
  from Cons.prems obtain w pb b wd bd where
    step: "load_affine pm ks
             (m(BnWeight k \<mapsto> \<lparr>data = wd, requires_grad = True\<rparr>,
                BnBias k \<mapsto> \<lparr>data = bd, requires_grad = True\<rparr>)) = Inr m'"
    by (auto split: option.splits sum.splits)
  let ?m1 = "m(BnWeight k \<mapsto> \<lparr>data = wd, requires_grad = True\<rparr>,
                BnBias k \<mapsto> \<lparr>data = bd, requires_grad = True\<rparr>)"
  from Cons.IH[OF step] have
    ih1: "affine_of ks n \<longrightarrow> (\<exists>p. m' n = Some p \<and> requires_grad p)" and
    ih2: "\<not> affine_of ks n \<longrightarrow> m' n = ?m1 n" by blast+
  show ?case
  proof (cases "affine_of ks n")
    case True
    with ih1 show ?thesis by (auto simp: affine_of_def split: pname.splits)
  next
    case False
    with ih2 have "m' n = ?m1 n" by blast
    with False show ?thesis by (cases n) (auto simp: affine_of_def)
  qed
qed

lemma load_affine_present:
  "load_affine pm ks m = Inr m' \<Longrightarrow> affine_of ks n \<Longrightarrow> m n \<noteq> None"
proof (induction ks arbitrary: m)
  case Nil
  then show ?case by (simp add: affine_of_def split: pname.splits)
next
  case (Cons k ks)
  from Cons.prems(1) obtain w b wd bd where
    w: "m (BnWeight k) = Some w" and b: "m (BnBias k) = Some b" and
    step: "load_affine pm ks
             (m(BnWeight k \<mapsto> \<lparr>data = wd, requires_grad = True\<rparr>,
                BnBias k \<mapsto> \<lparr>data = bd, requires_grad = True\<rparr>)) = Inr m'"
    by (auto split: option.splits sum.splits)
  show ?case
  proof (cases "n = BnWeight k \<or> n = BnBias k")
    case True
    with w b show ?thesis by auto
  next
    case False
    with Cons.prems(2) have "affine_of ks n" by (auto simp: affine_of_def split: pname.splits)
    from Cons.IH[OF step this] False show ?thesis by simp
  qed
qed

section \<open>Parameters the optimizer leaves alone\<close>

lemma optimizer_step_frozen:
  "m n = Some p \<Longrightarrow> \<not> requires_grad p \<Longrightarrow> optimizer_step upd m n = Some p"
  by (simp add: optimizer_step_def)

lemma train_frozen:
  "m n = Some p \<Longrightarrow> \<not> requires_grad p \<Longrightarrow> train batches m n = Some p"
  by (induction batches arbitrary: m) (simp_all add: optimizer_step_frozen)

lemma fine_tune_frozen:
  "m n = Some p \<Longrightarrow> \<not> requires_grad p \<Longrightarrow> fine_tune eps m n = Some p"
  by (induction eps arbitrary: m) (simp_all add: train_frozen)

lemma optimizer_step_None: "m n = None \<Longrightarrow> optimizer_step upd m n = None"
  by (simp add: optimizer_step_def)

lemma train_None: "m n = None \<Longrightarrow> train batches m n = None"
  by (induction batches arbitrary: m) (simp_all add: optimizer_step_None)

lemma fine_tune_None: "m n = None \<Longrightarrow> fine_tune eps m n = None"
  by (induction eps arbitrary: m) (simp_all add: train_None)

section \<open>State dicts and the load of one module\<close>

lemma map_of_map_entry:
  "map_of (map (\<lambda>(k, v). (k, f k v)) xs) k = map_option (f k) (map_of xs k)"
  by (induction xs) auto

lemma map_of_shape: "map_of (shape sd) k = map_option length (map_of sd k)"
  unfolding shape_def by (rule map_of_map_entry)

lemma fst_load_state_dict:
  "fst (load_state_dict dst src strict) = map (\<lambda>(k, t). (k, load_entry src k t)) dst"
  by (simp add: load_state_dict_def)

lemma length_load_entry: "length (load_entry src k t) = length t"
  by (simp add: load_entry_def split: option.splits)

lemma shape_load_state_dict: "shape (fst (load_state_dict dst src strict)) = shape dst"
  unfolding fst_load_state_dict shape_def
  by (simp add: o_def case_prod_beta length_load_entry)

lemma map_of_load_state_dict:
  "map_of (fst (load_state_dict dst src strict)) k = map_option (load_entry src k) (map_of dst k)"
  unfolding fst_load_state_dict by (rule map_of_map_entry)

lemma mismatch_shape:
  "list_ex (\<lambda>(k, t). case map_of src k of Some s \<Rightarrow> length s \<noteq> length t | None \<Rightarrow> False) dst
     = (\<not> list_all (\<lambda>(k, n). case map_of src k of Some s \<Rightarrow> length s = n | None \<Rightarrow> True) (shape dst))"
  by (induction dst) (auto simp: shape_def split: option.splits)

lemma snd_load_nonstrict:
  "snd (load_state_dict dst src False)
     = (\<not> list_all (\<lambda>(k, n). case map_of src k of Some s \<Rightarrow> length s = n | None \<Rightarrow> True) (shape dst))"
  by (simp add: load_state_dict_def mismatch_shape)

lemma snd_load_strict:
  "snd (load_state_dict dst src True)
     = (\<not> list_all (\<lambda>(k, n). case map_of src k of Some s \<Rightarrow> length s = n | None \<Rightarrow> True) (shape dst)
        \<or> list_ex (\<lambda>(k, t). map_of src k = None) dst \<or> list_ex (\<lambda>(k, s). map_of dst k = None) src)"
  by (simp add: load_state_dict_def mismatch_shape)

lemma keys_differ_raises:
  assumes "set (map fst dst) \<noteq> set (map fst src)"
  shows "list_ex (\<lambda>(k, t). map_of src k = None) dst \<or> list_ex (\<lambda>(k, s). map_of dst k = None) src"
proof -
  from assms have "fst ` set dst \<noteq> fst ` set src" by simp
  then consider k where "k \<in> fst ` set dst" "k \<notin> fst ` set src"
    | k where "k \<in> fst ` set src" "k \<notin> fst ` set dst"
    by blast
  then show ?thesis
  proof cases
    case 1
    then have "map_of src k = None" by (simp add: map_of_eq_None_iff)
    with 1(1) show ?thesis by (auto simp: list_ex_iff)
  next
    case 2
    then have "map_of dst k = None" by (simp add: map_of_eq_None_iff)
    with 2(1) show ?thesis by (auto simp: list_ex_iff)
  qed
qed

lemma keys_equal_no_raise:
  assumes "set (map fst dst) = set (map fst src)"
  shows "\<not> (list_ex (\<lambda>(k, t). map_of src k = None) dst \<or> list_ex (\<lambda>(k, s). map_of dst k = None) src)"
proof -
  have "map_of src k \<noteq> None" if "k \<in> fst ` set dst" for k
    using that assms by (simp add: map_of_eq_None_iff)
  moreover have "map_of dst k \<noteq> None" if "k \<in> fst ` set src" for k
    using that assms by (simp add: map_of_eq_None_iff)
  ultimately show ?thesis by (force simp: list_ex_iff)
qed

lemma keys_shape: "map fst (shape sd) = map fst sd"
  by (simp add: shape_def case_prod_beta)

lemma keys_of_shape_eq: "shape a = shape b \<Longrightarrow> map fst a = map fst b"
  by (metis keys_shape)

lemma map_of_put_entry:
  "map_of (put_entry name v sd) k =
     (if k = name \<and> map_of sd name \<noteq> None then Some v else map_of sd k)"
  by (induction name v sd rule: put_entry.induct) auto

lemma shape_put_entry:
  "map_of (shape sd) name = Some (length v) \<Longrightarrow> shape (put_entry name v sd) = shape sd"
  by (induction name v sd rule: put_entry.induct) (auto simp: shape_def)

lemma copy_param_result:
  assumes "map_of (shape sd) name = Some (length v)"
  shows "copy_param sd name v = Inr (put_entry name v sd)"
proof -
  from assms obtain t where t: "map_of sd name = Some t" "length t = length v"
    by (auto simp: map_of_shape)
  then show ?thesis by (simp add: copy_param_def tensor_copy_def)
qed

lemma load_entry_same_shape:
  "map_of src k = Some s \<Longrightarrow> length s = length t \<Longrightarrow> load_entry src k t = s"
  by (simp add: load_entry_def)

lemma load_module_plain:
  assumes "matching tl_m self_m" "passport self_m = None"
  shows "load_module tl_m self_m =
           Inr (tl_m\<lparr>params := fst (load_state_dict (params tl_m) (params self_m) True)\<rparr>)"
proof -
  from assms have
    nomis: "list_all (\<lambda>(k, n). case map_of (params self_m) k of Some s \<Rightarrow> length s = n | None \<Rightarrow> True)
              (shape (params tl_m))" and
    keys: "set (map fst (params tl_m)) = set (map fst (params self_m))"
    by (simp_all add: matching_def keys_shape)
  have "\<not> snd (load_state_dict (params tl_m) (params self_m) True)"
    unfolding snd_load_strict using nomis keys_equal_no_raise[OF keys] by simp
  then show ?thesis
    by (cases "load_state_dict (params tl_m) (params self_m) True") (simp add: load_module_def)
qed

lemma load_module_passport:
  assumes "matching tl_m self_m" "passport self_m = Some pb"
  shows "\<exists>sd2. load_module tl_m self_m =
           Inr (tl_m\<lparr>params := put_entry ''bn.bias'' (get_bias pb)
                                 (put_entry ''bn.weight'' (get_scale pb) sd2)\<rparr>) \<and>
           shape sd2 = shape (params tl_m) \<and>
           (\<forall>k. map_of sd2 k =
              map_option (load_entry (params self_m) k)
                (map_option (load_entry (params self_m) k) (map_of (params tl_m) k)))"
proof -
  let ?src = "params self_m"
  from assms have
    nomis: "list_all (\<lambda>(k, n). case map_of ?src k of Some s \<Rightarrow> length s = n | None \<Rightarrow> True)
              (shape (params tl_m))" and
    keys: "set (map fst (params tl_m)) \<noteq> set (map fst ?src)" and
    w: "map_of (shape (params tl_m)) ''bn.weight'' = Some (length (get_scale pb))" and
    b: "map_of (shape (params tl_m)) ''bn.bias'' = Some (length (get_bias pb))"
    by (simp_all add: matching_def keys_shape)
  obtain sd1 r1 where p1: "load_state_dict (params tl_m) ?src True = (sd1, r1)" by fastforce
  obtain sd2 r2 where p2: "load_state_dict sd1 ?src False = (sd2, r2)" by fastforce
  have r1: "r1"
    using snd_load_strict[of "params tl_m" ?src] keys_differ_raises[OF keys] by (simp add: p1)
  have s1: "shape sd1 = shape (params tl_m)"
    using shape_load_state_dict[of "params tl_m" ?src True] by (simp add: p1)
  have r2: "\<not> r2"
    using snd_load_nonstrict[of sd1 ?src] nomis by (simp add: p2 s1)
  have s2: "shape sd2 = shape (params tl_m)"
    using shape_load_state_dict[of sd1 ?src False] s1 by (simp add: p2)
  let ?sd3 = "put_entry ''bn.weight'' (get_scale pb) sd2"
  have c1: "copy_param sd2 ''bn.weight'' (get_scale pb) = Inr ?sd3"
    using w by (intro copy_param_result) (simp add: s2)
  have s3: "shape ?sd3 = shape (params tl_m)"
    using w s2 by (simp add: shape_put_entry)
  have c2: "copy_param ?sd3 ''bn.bias'' (get_bias pb) = Inr (put_entry ''bn.bias'' (get_bias pb) ?sd3)"
    using b by (intro copy_param_result) (simp add: s3)
  have run: "load_module tl_m self_m = Inr (tl_m\<lparr>params := put_entry ''bn.bias'' (get_bias pb) ?sd3\<rparr>)"
    by (simp add: load_module_def p1 r1 p2 r2 assms(2) c1 c2)
  have m: "map_of sd2 k =
              map_option (load_entry ?src k) (map_option (load_entry ?src k) (map_of (params tl_m) k))" for k
    using map_of_load_state_dict[of sd1 ?src False k] map_of_load_state_dict[of "params tl_m" ?src True k]
    by (simp add: p1 p2)
  from run s2 m show ?thesis by blast
qed

lemma load_module_matching:
  assumes "matching tl_m self_m"
  shows "\<exists>m. load_module tl_m self_m = Inr m \<and> shape (params m) = shape (params tl_m) \<and>
             restored self_m m"
proof (cases "passport self_m")
  case None
  from load_module_plain[OF assms None] None show ?thesis
    by (simp add: shape_load_state_dict restored_def)
next
  case (Some pb)
  let ?src = "params self_m"
  from load_module_passport[OF assms Some] obtain sd2 where
    run: "load_module tl_m self_m =
           Inr (tl_m\<lparr>params := put_entry ''bn.bias'' (get_bias pb)
                                 (put_entry ''bn.weight'' (get_scale pb) sd2)\<rparr>)" and
    s2: "shape sd2 = shape (params tl_m)" and
    m: "\<And>k. map_of sd2 k =
              map_option (load_entry ?src k) (map_option (load_entry ?src k) (map_of (params tl_m) k))"
    by blast
  let ?sd3 = "put_entry ''bn.weight'' (get_scale pb) sd2"
  let ?sd4 = "put_entry ''bn.bias'' (get_bias pb) ?sd3"
  from assms Some have
    nomis: "list_all (\<lambda>(k, n). case map_of ?src k of Some s \<Rightarrow> length s = n | None \<Rightarrow> True)
              (shape (params tl_m))" and
    w: "map_of (shape (params tl_m)) ''bn.weight'' = Some (length (get_scale pb))" and
    b: "map_of (shape (params tl_m)) ''bn.bias'' = Some (length (get_bias pb))"
    by (simp_all add: matching_def)
  have s3: "shape ?sd3 = shape (params tl_m)" using w s2 by (simp add: shape_put_entry)
  have s4: "shape ?sd4 = shape (params tl_m)" using b s3 by (simp add: shape_put_entry)
  have w2: "map_of sd2 ''bn.weight'' \<noteq> None"
    using w map_of_shape[of sd2 "''bn.weight''"] unfolding s2 by (cases "map_of sd2 ''bn.weight''") simp_all
  have b2: "map_of sd2 ''bn.bias'' \<noteq> None"
    using b map_of_shape[of sd2 "''bn.bias''"] unfolding s2 by (cases "map_of sd2 ''bn.bias''") simp_all
  have gw: "map_of ?sd4 ''bn.weight'' = Some (get_scale pb)"
    using w2 by (simp add: map_of_put_entry)
  have gb: "map_of ?sd4 ''bn.bias'' = Some (get_bias pb)"
    using b2 by (simp add: map_of_put_entry)
  have other: "map_of ?sd4 k = Some s"
    if k: "k \<noteq> ''bn.weight''" "k \<noteq> ''bn.bias''" and kt: "(k, t) \<in> set ?sd4"
      and s: "map_of ?src k = Some s" for k t s
  proof -
    have eq: "map_of ?sd4 k = map_of sd2 k" using k by (simp add: map_of_put_entry)
    from kt have "k \<in> fst ` set ?sd4" by force
    then have "map_of ?sd4 k \<noteq> None" by (simp add: map_of_eq_None_iff)
    with eq m[of k] obtain t0 where t0: "map_of (params tl_m) k = Some t0" by auto
    then have "map_of (shape (params tl_m)) k = Some (length t0)" by (simp add: map_of_shape)
    then have "(k, length t0) \<in> set (shape (params tl_m))" by (rule map_of_SomeD)
    with nomis s have len: "length s = length t0" by (auto simp: list_all_iff)
    have "load_entry ?src k t0 = s" using s len by (rule load_entry_same_shape)
    moreover have "load_entry ?src k s = s" using s by (simp add: load_entry_def)
    ultimately show ?thesis using eq m[of k] t0 by simp
  qed
  have la: "list_all (\<lambda>(k, t). k = ''bn.weight'' \<or> k = ''bn.bias'' \<or>
                      (case map_of ?src k of Some s \<Rightarrow> map_of ?sd4 k = Some s | None \<Rightarrow> True)) ?sd4"
    unfolding list_all_iff
  proof
    fix x assume x: "x \<in> set ?sd4"
    obtain k t where kt: "x = (k, t)" by (cases x)
    show "case x of (k, t) \<Rightarrow> k = ''bn.weight'' \<or> k = ''bn.bias'' \<or>
                      (case map_of ?src k of Some s \<Rightarrow> map_of ?sd4 k = Some s | None \<Rightarrow> True)"
    proof (cases "k = ''bn.weight'' \<or> k = ''bn.bias''")
      case True
      then show ?thesis by (auto simp: kt)
    next
      case False
      show ?thesis
      proof (cases "map_of ?src k")
        case None
        then show ?thesis by (simp add: kt)
      next
        case (Some s)
        from other[of k t s] False x Some have "map_of ?sd4 k = Some s" by (simp add: kt)
        with Some show ?thesis by (simp add: kt)
      qed
    qed
  qed
  have "restored self_m (tl_m\<lparr>params := ?sd4\<rparr>)"
    unfolding restored_def using Some gw gb la by (simp cong: option.case_cong)
  with run s4 show ?thesis by simp
qed

lemma matching_shape:
  "shape (params a) = shape (params b) \<Longrightarrow> matching a self_m = matching b self_m"
  by (simp add: matching_def cong: option.case_cong)

lemma load_modules_frame:
  "load_modules visit tl_model self_model = Inr tl_model' \<Longrightarrow>
     length tl_model' = length tl_model \<and> (\<forall>j. j \<notin> set visit \<longrightarrow> tl_model' ! j = tl_model ! j)"
proof (induction visit arbitrary: tl_model)
  case Nil
  then show ?case by simp
next
  case (Cons i visit)
  from Cons.prems obtain m where
    step: "load_modules visit (tl_model[i := m]) self_model = Inr tl_model'"
    by (auto split: if_splits sum.splits)
  from Cons.IH[OF step] show ?case by auto
qed

lemma load_modules_matching:
  assumes "list_all (\<lambda>i. i < length tl_model \<and> i < length self_model \<and> matching (tl_model ! i) (self_model ! i)) visit"
  shows "\<exists>tl_model'. load_modules visit tl_model self_model = Inr tl_model' \<and>
           map (\<lambda>m. shape (params m)) tl_model' = map (\<lambda>m. shape (params m)) tl_model \<and>
           (\<forall>i\<in>set visit. restored (self_model ! i) (tl_model' ! i))"
  using assms
proof (induction visit arbitrary: tl_model)
  case Nil
  then show ?case by simp
next
  case (Cons i visit)
  from Cons.prems have i: "i < length tl_model" "i < length self_model" and mi: "matching (tl_model ! i) (self_model ! i)"
    by simp_all
  from load_module_matching[OF mi] obtain m where
    m: "load_module (tl_model ! i) (self_model ! i) = Inr m" and
    sm: "shape (params m) = shape (params (tl_model ! i))" and
    rm: "restored (self_model ! i) m"
    by blast
  let ?tl1 = "tl_model[i := m]"
  have shapes: "map (\<lambda>m. shape (params m)) ?tl1 = map (\<lambda>m. shape (params m)) tl_model"
    using i(1) sm by (simp add: map_update list_update_same_conv)
  have sh: "shape (params (?tl1 ! j)) = shape (params (tl_model ! j))" if "j < length tl_model" for j
    using that sm by (cases "j = i") simp_all
  have pre: "list_all (\<lambda>j. j < length ?tl1 \<and> j < length self_model \<and> matching (?tl1 ! j) (self_model ! j)) visit"
    unfolding list_all_iff
  proof
    fix j assume "j \<in> set visit"
    with Cons.prems have j: "j < length tl_model" "j < length self_model" "matching (tl_model ! j) (self_model ! j)"
      by (simp_all add: list_all_iff)
    from matching_shape[OF sh[OF j(1)], of "self_model ! j"] j
    show "j < length ?tl1 \<and> j < length self_model \<and> matching (?tl1 ! j) (self_model ! j)" by simp
  qed
  from Cons.IH[OF pre] obtain tl_model' where
    run: "load_modules visit ?tl1 self_model = Inr tl_model'" and
    sh': "map (\<lambda>m. shape (params m)) tl_model' = map (\<lambda>m. shape (params m)) ?tl1" and
    rest: "\<forall>j\<in>set visit. restored (self_model ! j) (tl_model' ! j)"
    by blast
  have run': "load_modules (i # visit) tl_model self_model = Inr tl_model'" using i m run by simp
  have ri: "restored (self_model ! i) (tl_model' ! i)"
  proof (cases "i \<in> set visit")
    case True
    with rest show ?thesis by blast
  next
    case False
    with load_modules_frame[OF run] have "tl_model' ! i = ?tl1 ! i" by blast
    with i(1) rm show ?thesis by simp
  qed
  from run' sh' shapes rest ri show ?case by auto
qed

lemma load_model_shape:
  "length (fst (load_model tl_model self_model)) = length tl_model \<and>
   (\<forall>i<length tl_model. shape (params (fst (load_model tl_model self_model) ! i)) = shape (params (tl_model ! i)))"
proof -
  let ?f = "\<lambda>(t, s). t\<lparr>params := fst (load_state_dict (params t) (params s) True)\<rparr>"
  have len: "length (fst (load_model tl_model self_model)) = length tl_model"
    by (simp add: load_model_def)
  have "shape (params (fst (load_model tl_model self_model) ! i)) = shape (params (tl_model ! i))"
    if i: "i < length tl_model" for i
  proof (cases "i < length self_model")
    case True
    then have "fst (load_model tl_model self_model) ! i = ?f (tl_model ! i, self_model ! i)"
      using i by (simp add: load_model_def nth_append)
    then show ?thesis by (simp add: shape_load_state_dict)
  next
    case False
    then have "fst (load_model tl_model self_model) ! i = tl_model ! i"
      using i by (simp add: load_model_def nth_append min_def)
    then show ?thesis by simp
  qed
  with len show ?thesis by blast
qed

section \<open>C1: what the flip writes into the scale\<close>

text \<open>
  C1 as stated fails: the loop writes the sign pattern itself into the weight, so the
  magnitude is not kept. On the layer \<open>[2, -3]\<close> with index 0 selected the code leaves
  \<open>[-1, -1]\<close>, where \<open>scale[local_idx] *= -1\<close> would leave \<open>[-2, -3]\<close>.
\<close>

theorem flip_keeps_magnitude_counterexample:
  "flip_layer [2, - 3] [0] = Inr ([- 1, - 1], Some (1 / 2), [0], []) \<and>
   flip_at [2, - 3] [0] = [- 2, - 3] \<and>
   flip_layer [2, - 3] [0] \<noteq> Inr (flip_at [2, - 3] [0], Some (1 / 2), [0], [])"
  by (simp add: flip_layer_def index_imul_def tsign_def sign_def eq_mean_def index_ok_def
        wrap_index_def flip_at_def)

text \<open>
  C1, amended. The flip loop returns, and for every attacked layer \<open>l\<close> the new weight is
  the sign pattern of the old one with the entries at the layer's consumed local indices
  negated: at a selected channel the entry becomes \<open>- sign w\<close>, at every other channel it
  becomes \<open>sign w\<close>. The sign is reversed exactly at the selected channels; the magnitude
  becomes 1 (0 for a zero entry). The layers are distinct parameters and the pool holds no
  negative index, as \<open>randperm\<close> gives.
\<close>

theorem flip_loop_writes_flipped_signs:
  assumes "list_all (\<lambda>r. net st r \<noteq> None) rs" "distinct rs" "nonneg (idxs st)" "consumed st = []"
  shows "\<exists>st'. flip_loop rs st = Inr st' \<and>
           (\<forall>l<length rs. \<exists>w w'.
              net st (rs ! l) = Some w \<and> net st' (rs ! l) = Some w' \<and>
              consumed st' ! l = layer_slice (layer_sizes (net st) rs) (idxs st) l \<and>
              data w' = flip_at (tsign (data w)) (consumed st' ! l) \<and>
              (\<forall>j<length (data w).
                 data w' ! j = (if int j \<in> set (consumed st' ! l) then - sign (data w ! j)
                                else sign (data w ! j))))"
proof -
  from flip_loop_returns[OF assms(1,3)] obtain st' where run: "flip_loop rs st = Inr st'" by blast
  have "\<exists>w w'. net st (rs ! l) = Some w \<and> net st' (rs ! l) = Some w' \<and>
              consumed st' ! l = layer_slice (layer_sizes (net st) rs) (idxs st) l \<and>
              data w' = flip_at (tsign (data w)) (consumed st' ! l) \<and>
              (\<forall>j<length (data w).
                 data w' ! j = (if int j \<in> set (consumed st' ! l) then - sign (data w ! j)
                                else sign (data w ! j)))" if l: "l < length rs" for l
  proof -
    from flip_loop_weights[OF run assms(2,3) l] assms(4) obtain w where
      w: "net st (rs ! l) = Some w"
         "net st' (rs ! l) = Some (w\<lparr>data := flip_at (tsign (data w)) (consumed st' ! l)\<rparr>)"
      by auto
    have c: "consumed st' ! l = layer_slice (layer_sizes (net st) rs) (idxs st) l"
      using flip_loop_consumed[OF run assms(3)] assms(4) l by simp
    have "\<forall>j<length (data w).
            flip_at (tsign (data w)) (consumed st' ! l) ! j
              = (if int j \<in> set (consumed st' ! l) then - sign (data w ! j) else sign (data w ! j))"
      by (simp add: nth_flip_at tsign_def)
    with w c show ?thesis by simp
  qed
  with run show ?thesis by blast
qed

theorem flip_loop_writes_flipped_signs_witness:
  "list_all (\<lambda>r. net example_state r \<noteq> None) [BnWeight 0, BnWeight 1] \<and>
   distinct [BnWeight (0::nat), BnWeight 1] \<and>
   nonneg (idxs example_state) \<and> consumed example_state = [] \<and>
   (\<exists>st'. flip_loop [BnWeight 0, BnWeight 1] example_state = Inr st' \<and>
      (\<exists>w w'. net example_state (BnWeight 0) = Some w \<and> net st' (BnWeight 0) = Some w' \<and>
         data w = [2, - 3] \<and> consumed st' ! 0 = [0] \<and> data w' = [- 1, - 1]))"
proof -
  have h1: "list_all (\<lambda>r. net example_state r \<noteq> None) [BnWeight 0, BnWeight 1]"
    by (simp add: example_state_def example_model_def)
  have h2: "distinct [BnWeight (0::nat), BnWeight 1]" by simp
  have h3: "nonneg (idxs example_state)" by (simp add: example_state_def nonneg_def)
  have h4: "consumed example_state = []" by (simp add: example_state_def)
  from flip_loop_writes_flipped_signs[OF h1 h2 h3 h4] obtain st' where
    run: "flip_loop [BnWeight 0, BnWeight 1] example_state = Inr st'" and
    all: "\<forall>l<length [BnWeight (0::nat), BnWeight 1]. \<exists>w w'.
              net example_state ([BnWeight 0, BnWeight 1] ! l) = Some w \<and>
              net st' ([BnWeight 0, BnWeight 1] ! l) = Some w' \<and>
              consumed st' ! l = layer_slice (layer_sizes (net example_state) [BnWeight 0, BnWeight 1]) (idxs example_state) l \<and>
              data w' = flip_at (tsign (data w)) (consumed st' ! l) \<and>
              (\<forall>j<length (data w).
                 data w' ! j = (if int j \<in> set (consumed st' ! l) then - sign (data w ! j)
                                else sign (data w ! j)))"
    by blast
  from all[rule_format, of 0] obtain w w' where
    w: "net example_state (BnWeight 0) = Some w" "net st' (BnWeight 0) = Some w'"
       "consumed st' ! 0 = layer_slice (layer_sizes (net example_state) [BnWeight 0, BnWeight 1]) (idxs example_state) 0"
       "data w' = flip_at (tsign (data w)) (consumed st' ! 0)"
    by auto
  have dw: "data w = [2, - 3]" using w(1) by (auto simp: example_state_def example_model_def)
  have c0: "consumed st' ! 0 = [0]"
    unfolding w(3) by (simp add: layer_slice_def layer_sizes_def offset_def example_state_def example_model_def)
  have "data w' = [- 1, - 1]"
    unfolding w(4) c0 dw by (simp add: flip_at_def tsign_def sign_def)
  with run w dw c0 h1 h2 h3 h4 show ?thesis by blast
qed

section \<open>C2: the partition of the selected indices over the layers\<close>

text \<open>
  C2. Let \<open>cs\<close> be the channel counts of the attacked layers in order and let every
  selected global index lie in \<open>[0, total)\<close>, \<open>total = sum_list cs\<close>. Then the flip loop
  returns; layer \<open>l\<close> consumes exactly the selected indices of its own range
  \<open>[offset cs l, offset cs (l + 1))\<close>, translated by its offset, so every consumed local
  index lies in \<open>[0, cs ! l)\<close>; every selected global index is consumed by exactly one
  layer; the consumed counts add up to the number of selected indices, which is
  \<open>floor (total * fraction)\<close> for the first entries of a permutation with a fraction in
  \<open>[0, 1]\<close>; and the pool is empty at the end.
\<close>

theorem flip_loop_partitions_indices:
  assumes "list_all (\<lambda>r. m r \<noteq> None) rs"
      and "cs = layer_sizes m rs"
      and "list_all (\<lambda>g. 0 \<le> g \<and> g < int (sum_list cs)) is"
  shows "\<exists>st'. flip_loop rs \<lparr>net = m, idxs = is, sim = s0, consumed = []\<rparr> = Inr st' \<and>
           length (consumed st') = length rs \<and>
           (\<forall>l<length rs.
              consumed st' ! l = layer_slice cs is l \<and>
              list_all (\<lambda>i. 0 \<le> i \<and> i < int (cs ! l)) (consumed st' ! l)) \<and>
           (\<forall>g\<in>set is. \<exists>!l. l < length rs \<and> g - int (offset cs l) \<in> set (consumed st' ! l)) \<and>
           sum_list (map length (consumed st')) = length is \<and>
           (\<forall>randidxs flipperc.
              is_randperm (sum_list cs) randidxs \<and> 0 \<le> flipperc \<and> flipperc \<le> 1 \<and>
              is = select_idxs randidxs (sum_list cs) flipperc \<longrightarrow>
              sum_list (map length (consumed st')) = nat \<lfloor>real (sum_list cs) * flipperc\<rfloor>) \<and>
           idxs st' = []"
proof -
  let ?st = "\<lparr>net = m, idxs = is, sim = s0, consumed = []\<rparr>"
  have nn: "nonneg (idxs ?st)" using assms(3) by (simp add: nonneg_def list_all_iff)
  have pr: "list_all (\<lambda>r. net ?st r \<noteq> None) rs" using assms(1) by simp
  from flip_loop_returns[OF pr nn] obtain st' where run: "flip_loop rs ?st = Inr st'" by blast
  have len_cs: "length cs = length rs" by (simp add: assms(2) layer_sizes_def)
  from flip_loop_consumed[OF run nn]
  have con: "consumed st' = map (layer_slice cs is) [0..<length rs]"
    and rest: "idxs st' = layer_rest (sum_list cs) is"
    by (simp_all add: assms(2))
  have 1: "length (consumed st') = length rs" by (simp add: con)
  have 2: "\<forall>l<length rs.
              consumed st' ! l = layer_slice cs is l \<and>
              list_all (\<lambda>i. 0 \<le> i \<and> i < int (cs ! l)) (consumed st' ! l)"
    using layer_slice_local_range[of _ cs _ "is"] len_cs by (simp add: con list_all_iff)
  have 3: "\<forall>g\<in>set is. \<exists>!l. l < length rs \<and> g - int (offset cs l) \<in> set (consumed st' ! l)"
  proof
    fix g assume g: "g \<in> set is"
    then have "0 \<le> g" "g < int (sum_list cs)" using assms(3) by (auto simp: list_all_iff)
    from global_index_one_layer[OF g this]
    have "\<exists>!l. l < length cs \<and> g - int (offset cs l) \<in> set (layer_slice cs is l)" .
    moreover have "(l < length rs \<and> g - int (offset cs l) \<in> set (consumed st' ! l))
        = (l < length cs \<and> g - int (offset cs l) \<in> set (layer_slice cs is l))" for l
      using len_cs by (auto simp: con)
    ultimately show "\<exists>!l. l < length rs \<and> g - int (offset cs l) \<in> set (consumed st' ! l)"
      by simp
  qed
  have 5: "idxs st' = []"
    using assms(3) by (simp add: rest layer_rest_empty list_all_iff)
  have 4: "sum_list (map length (consumed st')) = length is"
    using flip_loop_count[OF run nn] 5 by simp
  have 6: "\<forall>randidxs flipperc.
              is_randperm (sum_list cs) randidxs \<and> 0 \<le> flipperc \<and> flipperc \<le> 1 \<and>
              is = select_idxs randidxs (sum_list cs) flipperc \<longrightarrow>
              sum_list (map length (consumed st')) = nat \<lfloor>real (sum_list cs) * flipperc\<rfloor>"
    using 4 select_idxs_length by metis
  from run 1 2 3 4 5 6 show ?thesis by blast
qed

theorem flip_loop_partitions_indices_witness:
  "list_all (\<lambda>r. example_model r \<noteq> None) [BnWeight 0, BnWeight 1] \<and>
   [2, 3] = layer_sizes example_model [BnWeight 0, BnWeight 1] \<and>
   list_all (\<lambda>g. 0 \<le> g \<and> g < int (sum_list [2, 3])) [3, 0] \<and>
   is_randperm (sum_list [2, 3]) [3, 0, 4, 1, 2] \<and>
   [3, 0] = select_idxs [3, 0, 4, 1, 2] (sum_list [2, 3]) (1 / 2) \<and>
   (\<exists>st'. flip_loop [BnWeight 0, BnWeight 1]
             \<lparr>net = example_model, idxs = [3, 0], sim = Some 0, consumed = []\<rparr> = Inr st' \<and>
          consumed st' ! 0 = [0] \<and> consumed st' ! 1 = [1] \<and>
          sum_list (map length (consumed st')) = 2 \<and> idxs st' = [])"
proof -
  have h1: "list_all (\<lambda>r. example_model r \<noteq> None) [BnWeight 0, BnWeight 1]"
    by (simp add: example_model_def)
  have h2: "[2, 3] = layer_sizes example_model [BnWeight 0, BnWeight 1]"
    by (simp add: example_model_def layer_sizes_def)
  have h3: "list_all (\<lambda>g. 0 \<le> g \<and> g < int (sum_list [2, 3])) [3, 0]" by simp
  have h4: "is_randperm (sum_list [2, 3]) [3, 0, 4, 1, 2]"
    by (simp add: is_randperm_def upt_rec)
  have h5: "[3, 0] = select_idxs [3, 0, 4, 1, 2] (sum_list [2, 3]) (1 / 2)"
    by (simp add: select_idxs_def slice_to_def py_int_def)
  from flip_loop_partitions_indices[OF h1 h2 h3, of "Some 0"] obtain st' where
    run: "flip_loop [BnWeight 0, BnWeight 1]
             \<lparr>net = example_model, idxs = [3, 0], sim = Some 0, consumed = []\<rparr> = Inr st'" and
    sl: "\<forall>l<length [BnWeight (0::nat), BnWeight 1].
              consumed st' ! l = layer_slice [2, 3] [3, 0] l \<and>
              list_all (\<lambda>i. 0 \<le> i \<and> i < int ([2, 3] ! l)) (consumed st' ! l)" and
    cnt: "sum_list (map length (consumed st')) = length [3, 0 :: int]" and
    e: "idxs st' = []"
    by blast
  have c0: "consumed st' ! 0 = [0]" using sl[rule_format, of 0]
    by (simp add: layer_slice_def offset_def)
  have c1: "consumed st' ! 1 = [1]" using sl[rule_format, of 1]
    by (simp add: layer_slice_def offset_def)
  have cnt2: "sum_list (map length (consumed st')) = 2" using cnt by simp
  from run c0 c1 cnt2 e h1 h2 h3 h4 h5 show ?thesis by blast
qed

section \<open>C3: the pool after the loop\<close>




section \<open>C4: the selection and its randomness\<close>




section \<open>C5: the bias of the attacked layers\<close>

text \<open>
  C5. Whatever index pool \<open>is\<close> the selection hands to the flip loop, after the second
  loop over \<open>plkeys\<close> and after the flip loop the bias of every block in \<open>plkeys\<close> is
  the zero vector of its length, and the bias of every other block is what it was.
\<close>

theorem bias_zeroed_for_attacked_layers_only:
  assumes "list_all (\<lambda>k. m (BnWeight k) \<noteq> None \<and> m (BnBias k) \<noteq> None) plkeys"
      and "nonneg is"
  shows "\<exists>m1 rs t st.
           collect_weights plkeys (m, [], 0) = Inr (m1, rs, t) \<and>
           flip_loop rs \<lparr>net = m1, idxs = is, sim = s0, consumed = []\<rparr> = Inr st \<and>
           (\<forall>k\<in>set plkeys. \<exists>b b1 b2.
              m (BnBias k) = Some b \<and> m1 (BnBias k) = Some b1 \<and> net st (BnBias k) = Some b2 \<and>
              data b1 = replicate (length (data b)) 0 \<and>
              data b2 = replicate (length (data b)) 0) \<and>
           (\<forall>k. k \<notin> set plkeys \<longrightarrow>
              m1 (BnBias k) = m (BnBias k) \<and> net st (BnBias k) = m (BnBias k))"
proof -
  from collect_weights_returns[OF assms(1), of "[]" 0] obtain m1 rs t where
    col: "collect_weights plkeys (m, [], 0) = Inr (m1, rs, t)" by blast
  from collect_weights_result[OF col] have
    m1: "m1 = collected plkeys m" and rs: "rs = map BnWeight plkeys" by simp_all
  let ?st0 = "\<lparr>net = m1, idxs = is, sim = s0, consumed = []\<rparr>"
  have pr: "list_all (\<lambda>r. net ?st0 r \<noteq> None) rs"
    using assms(1) by (auto simp: list_all_iff m1 rs collected_def)
  have nn: "nonneg (idxs ?st0)" using assms(2) by simp
  from flip_loop_returns[OF pr nn] obtain st where run: "flip_loop rs ?st0 = Inr st" by blast
  have fr: "net st (BnBias k) = m1 (BnBias k)" for k
    using flip_loop_frame[OF run, of "BnBias k"] by (auto simp: rs)
  have a: "\<forall>k\<in>set plkeys. \<exists>b b1 b2.
              m (BnBias k) = Some b \<and> m1 (BnBias k) = Some b1 \<and> net st (BnBias k) = Some b2 \<and>
              data b1 = replicate (length (data b)) 0 \<and>
              data b2 = replicate (length (data b)) 0"
  proof
    fix k assume k: "k \<in> set plkeys"
    with assms(1) obtain b where b: "m (BnBias k) = Some b" by (auto simp: list_all_iff)
    have "m1 (BnBias k) = Some \<lparr>data = tensor_zero (data b), requires_grad = True\<rparr>"
      using k b by (simp add: m1 collected_def)
    with b fr[of k] show "\<exists>b b1 b2.
              m (BnBias k) = Some b \<and> m1 (BnBias k) = Some b1 \<and> net st (BnBias k) = Some b2 \<and>
              data b1 = replicate (length (data b)) 0 \<and>
              data b2 = replicate (length (data b)) 0"
      by (simp add: tensor_zero_def)
  qed
  have b: "\<forall>k. k \<notin> set plkeys \<longrightarrow>
              m1 (BnBias k) = m (BnBias k) \<and> net st (BnBias k) = m (BnBias k)"
    using fr by (simp add: m1 collected_def)
  from col run a b show ?thesis by blast
qed

theorem bias_zeroed_for_attacked_layers_only_witness:
  "list_all (\<lambda>k. example_model (BnWeight k) \<noteq> None \<and> example_model (BnBias k) \<noteq> None) [0, 1] \<and>
   nonneg [3, 0] \<and>
   (\<exists>m1 rs t st.
      collect_weights [0, 1] (example_model, [], 0) = Inr (m1, rs, t) \<and>
      flip_loop rs \<lparr>net = m1, idxs = [3, 0], sim = Some 0, consumed = []\<rparr> = Inr st \<and>
      map_option data (net st (BnBias 0)) = Some [0, 0] \<and>
      map_option data (net st (BnBias 1)) = Some [0, 0, 0] \<and>
      map_option data (net st (BnBias 2)) = Some [7])"
proof -
  have h1: "list_all (\<lambda>k. example_model (BnWeight k) \<noteq> None \<and> example_model (BnBias k) \<noteq> None) [0, 1]"
    by (simp add: example_model_def)
  have h2: "nonneg [3, 0]" by (simp add: nonneg_def)
  from bias_zeroed_for_attacked_layers_only[OF h1 h2, of "Some 0"] obtain m1 rs t st where
    col: "collect_weights [0, 1] (example_model, [], 0) = Inr (m1, rs, t)" and
    run: "flip_loop rs \<lparr>net = m1, idxs = [3, 0], sim = Some 0, consumed = []\<rparr> = Inr st" and
    z: "\<forall>k\<in>set [0, 1 :: nat]. \<exists>b b1 b2.
              example_model (BnBias k) = Some b \<and> m1 (BnBias k) = Some b1 \<and> net st (BnBias k) = Some b2 \<and>
              data b1 = replicate (length (data b)) 0 \<and>
              data b2 = replicate (length (data b)) 0" and
    u: "\<forall>k. k \<notin> set [0, 1 :: nat] \<longrightarrow>
              m1 (BnBias k) = example_model (BnBias k) \<and> net st (BnBias k) = example_model (BnBias k)"
    by blast
  have 0: "map_option data (net st (BnBias 0)) = Some [0, 0]"
    using z[rule_format, of 0] by (auto simp: example_model_def)
  have 1: "map_option data (net st (BnBias 1)) = Some [0, 0, 0]"
    using z[rule_format, of 1] by (auto simp: example_model_def)
  have 2: "map_option data (net st (BnBias 2)) = Some [7]"
    using u[rule_format, of 2] by (simp add: example_model_def)
  from col run 0 1 2 h1 h2 show ?thesis by blast
qed

section \<open>C6: the reported similarity\<close>

text \<open>
  C6. Let the attacked layers be distinct, present and non-empty, at least one, and let
  \<open>randperm\<close> return a permutation of \<open>[0, total)\<close>. Then the attack returns, and the
  similarity it reports is the arithmetic mean, over the attacked layers, of the fraction
  of channels whose sign in the final weight equals the sign of the weight before the
  attack (\<open>layer_similarity\<close>, written from the claim's words).
\<close>

theorem reported_similarity_is_mean_over_layers:
  assumes "plkeys \<noteq> []" "distinct plkeys"
      and "list_all (\<lambda>k. m (BnWeight k) \<noteq> None \<and> m (BnBias k) \<noteq> None) plkeys"
      and "0 \<notin> set (layer_sizes m (map BnWeight plkeys))"
      and "is_randperm (sum_list (layer_sizes m (map BnWeight plkeys)))
             (randperm (sum_list (layer_sizes m (map BnWeight plkeys))))"
  shows "\<exists>st. apply_attack plkeys randperm flipperc m =
           Inr (st, Some (mean (map (\<lambda>k. layer_similarity (data (the (m (BnWeight k))))
                                                      (data (the (net st (BnWeight k))))) plkeys)))"
proof -
  let ?n = "sum_list (layer_sizes m (map BnWeight plkeys))"
  let ?rs = "map BnWeight plkeys"
  from collect_weights_returns[OF assms(3), of "[]" 0] obtain m1 rs t where
    col: "collect_weights plkeys (m, [], 0) = Inr (m1, rs, t)" by blast
  from collect_weights_result[OF col] have
    m1: "m1 = collected plkeys m" and rs: "rs = ?rs" and t: "t = ?n" by simp_all
  let ?st0 = "\<lparr>net = m1, idxs = select_idxs (randperm ?n) ?n flipperc, sim = Some 0, consumed = []\<rparr>"
  have nn: "nonneg (idxs ?st0)"
    using select_idxs_range[OF assms(5), of flipperc] by (simp add: nonneg_def list_all_iff)
  have pr: "list_all (\<lambda>r. net ?st0 r \<noteq> None) ?rs"
    using assms(3) by (auto simp: list_all_iff m1 collected_def)
  from flip_loop_returns[OF pr nn] obtain st where run: "flip_loop ?rs ?st0 = Inr st" by blast
  have d: "distinct ?rs" using assms(2) by (simp add: distinct_map inj_on_def)
  have tm: "eq_mean (tsign (data (the (net st (BnWeight k))))) (tsign (data (the (net ?st0 (BnWeight k)))))
            = Some (layer_similarity (data (the (m (BnWeight k)))) (data (the (net st (BnWeight k)))))"
    if k: "k \<in> set plkeys" for k
  proof -
    from k assms(3) obtain w where w: "m (BnWeight k) = Some w" by (auto simp: list_all_iff)
    have ne: "data w \<noteq> []"
      using assms(4) k w by (force simp: layer_sizes_def image_iff)
    have w1: "net ?st0 (BnWeight k) = Some (w\<lparr>requires_grad := True\<rparr>)"
      using k w by (simp add: m1 collected_def)
    from flip_loop_shape[OF run, of "BnWeight k"] w1
    have "map_option (\<lambda>p. length (data p)) (net st (BnWeight k)) = Some (length (data w))"
      by simp
    then have len: "length (data (the (net st (BnWeight k)))) = length (data w)" by auto
    show ?thesis using eq_mean_similarity[OF len ne] w w1 by simp
  qed
  have "sim st = foldl fadd (Some 0)
       (map (\<lambda>r. eq_mean (tsign (data (the (net st r)))) (tsign (data (the (net ?st0 r))))) ?rs)"
    using flip_loop_sim[OF run d] by simp
  also have "map (\<lambda>r. eq_mean (tsign (data (the (net st r)))) (tsign (data (the (net ?st0 r))))) ?rs
           = map (\<lambda>k. Some (layer_similarity (data (the (m (BnWeight k)))) (data (the (net st (BnWeight k)))))) plkeys"
    using tm by (simp add: o_def)
  finally have sim: "sim st = Some (sum_list (map (\<lambda>k. layer_similarity (data (the (m (BnWeight k))))
                                                      (data (the (net st (BnWeight k))))) plkeys))"
    by (simp add: foldl_fadd_Some)
  have "apply_attack plkeys randperm flipperc m =
           Inr (st, Some (mean (map (\<lambda>k. layer_similarity (data (the (m (BnWeight k))))
                                                      (data (the (net st (BnWeight k))))) plkeys)))"
    using col run sim assms(1) unfolding rs t
    by (simp add: apply_attack_def signature_similarity_def mean_def)
  then show ?thesis by blast
qed

lemma example_attack:
  "\<exists>st. apply_attack [0, 1] (\<lambda>n. [3, 0, 4, 1, 2]) (1 / 2) example_model = Inr (st, Some (7 / 12))"
  by (simp add: apply_attack_def example_model_def select_idxs_def slice_to_def py_int_def
        flip_layer_def index_imul_def tsign_def sign_def eq_mean_def index_ok_def wrap_index_def
        fadd_def signature_similarity_def)

theorem reported_similarity_is_mean_over_layers_witness:
  "[0, 1] \<noteq> ([] :: nat list) \<and> distinct [0, 1 :: nat] \<and>
   list_all (\<lambda>k. example_model (BnWeight k) \<noteq> None \<and> example_model (BnBias k) \<noteq> None) [0, 1] \<and>
   0 \<notin> set (layer_sizes example_model (map BnWeight [0, 1])) \<and>
   is_randperm (sum_list (layer_sizes example_model (map BnWeight [0, 1]))) [3, 0, 4, 1, 2] \<and>
   (\<exists>st. apply_attack [0, 1] (\<lambda>n. [3, 0, 4, 1, 2]) (1 / 2) example_model = Inr (st, Some (7 / 12)) \<and>
      mean (map (\<lambda>k. layer_similarity (data (the (example_model (BnWeight k))))
                                       (data (the (net st (BnWeight k))))) [0, 1]) = 7 / 12)"
proof -
  have h1: "[0, 1] \<noteq> ([] :: nat list)" by simp
  have h2: "distinct [0, 1 :: nat]" by simp
  have h3: "list_all (\<lambda>k. example_model (BnWeight k) \<noteq> None \<and> example_model (BnBias k) \<noteq> None) [0, 1]"
    by (simp add: example_model_def)
  have h4: "0 \<notin> set (layer_sizes example_model (map BnWeight [0, 1]))"
    by (simp add: example_model_def layer_sizes_def)
  have h5: "is_randperm (sum_list (layer_sizes example_model (map BnWeight [0, 1]))) [3, 0, 4, 1, 2]"
    by (simp add: example_model_def layer_sizes_def is_randperm_def upt_rec)
  from reported_similarity_is_mean_over_layers[OF h1 h2 h3 h4, of "\<lambda>n. [3, 0, 4, 1, 2]" "1 / 2"] h5
  obtain st where
    st: "apply_attack [0, 1] (\<lambda>n. [3, 0, 4, 1, 2]) (1 / 2) example_model =
           Inr (st, Some (mean (map (\<lambda>k. layer_similarity (data (the (example_model (BnWeight k))))
                                       (data (the (net st (BnWeight k))))) [0, 1])))"
    by blast
  from example_attack obtain st2 where
    "apply_attack [0, 1] (\<lambda>n. [3, 0, 4, 1, 2]) (1 / 2) example_model = Inr (st2, Some (7 / 12))"
    by blast
  with st have v: "mean (map (\<lambda>k. layer_similarity (data (the (example_model (BnWeight k))))
                                       (data (the (net st (BnWeight k))))) [0, 1]) = 7 / 12"
    by auto
  from st v have "apply_attack [0, 1] (\<lambda>n. [3, 0, 4, 1, 2]) (1 / 2) example_model = Inr (st, Some (7 / 12))"
    by simp
  with v h1 h2 h3 h4 h5 show ?thesis by blast
qed

section \<open>C7: flipping a whole layer twice\<close>

text \<open>
  C7. For any scale vector \<open>w\<close>, running the per-layer flip step with an index pool that
  is exactly the full index set \<open>[0, C_out)\<close> (in any order), and running it again on the
  result with the same pool, succeeds both times, consumes the whole pool both times, and
  ends with the sign pattern of \<open>w\<close>: \<open>tsign w2 = tsign w\<close>.
\<close>

theorem full_flip_twice_restores_sign_pattern:
  assumes "set is = int ` {0..<length w}"
  shows "\<exists>w1 s1 r1 w2 s2 r2.
           flip_layer w is = Inr (w1, s1, is, r1) \<and>
           flip_layer w1 is = Inr (w2, s2, is, r2) \<and>
           tsign w2 = tsign w"
proof -
  have nn: "nonneg is" using assms by (auto simp: nonneg_def list_all_iff)
  have all: "layer_widxs (length w) is = is"
    using assms by (auto simp: layer_widxs_def filter_id_conv)
  let ?w1 = "flip_at (tsign w) is"
  have len1: "length ?w1 = length w" by (simp add: length_flip_at tsign_def)
  let ?w2 = "flip_at (tsign ?w1) is"
  have 1: "flip_layer w is = Inr (?w1, eq_mean (tsign ?w1) (tsign w), is, layer_rest (length w) is)"
    using flip_layer_nonneg[OF nn, of w] by (simp add: all)
  have 2: "flip_layer ?w1 is = Inr (?w2, eq_mean (tsign ?w2) (tsign ?w1), is, layer_rest (length w) is)"
    using flip_layer_nonneg[OF nn, of ?w1] by (simp add: all len1)
  have "tsign ?w2 = tsign w"
  proof (rule nth_equalityI)
    show "length (tsign ?w2) = length (tsign w)"
      by (simp add: tsign_def length_flip_at)
  next
    fix j assume "j < length (tsign ?w2)"
    then have j: "j < length w" by (simp add: tsign_def length_flip_at)
    then have mem: "int j \<in> set is" using assms by simp
    show "tsign ?w2 ! j = tsign w ! j"
      using j mem by (simp add: tsign_def length_flip_at nth_flip_at sign_sign sign_minus)
  qed
  with 1 2 show ?thesis by blast
qed

theorem full_flip_twice_restores_sign_pattern_witness:
  "set [2, 0, 1] = int ` {0..<length [2, - 3, 0 :: real]} \<and>
   (\<exists>w1 s1 r1 w2 s2 r2.
      flip_layer [2, - 3, 0] [2, 0, 1] = Inr (w1, s1, [2, 0, 1], r1) \<and>
      flip_layer w1 [2, 0, 1] = Inr (w2, s2, [2, 0, 1], r2) \<and>
      tsign w2 = tsign [2, - 3, 0])"
proof -
  have h: "set [2, 0, 1] = int ` {0..<length [2, - 3, 0 :: real]}"
    by (auto simp: image_iff less_Suc_eq numeral_3_eq_3)
  from full_flip_twice_restores_sign_pattern[OF h] h show ?thesis by blast
qed

section \<open>C8: loading the clone when the strict load fails\<close>

text \<open>
  C8. Let the strict load of the passport model's state dict into the clone raise, and let
  every module the fallback loop visits have matching architecture with its partner (no
  shared tensor differs in shape; a plain module has the clone's names; a passport block
  has other names, and a scale and bias of the length of the clone's \<open>bn.weight\<close> and
  \<open>bn.bias\<close>). Then loading the clone does not fail: it returns the clone, and for every
  visited passport block the clone's \<open>bn.weight\<close> is \<open>get_scale()\<close>, its \<open>bn.bias\<close>
  is \<open>get_bias()\<close>, and every other tensor the two modules share by name has been copied
  by the non-strict load.
\<close>

theorem strict_load_failure_is_recovered:
  assumes "snd (load_model tl_model self_model)"
      and "list_all (\<lambda>i. i < length tl_model \<and> i < length self_model \<and>
                          matching (tl_model ! i) (self_model ! i)) visit"
  shows "\<exists>tl_model'.
           load_clone visit tl_model self_model = Inr tl_model' \<and>
           length tl_model' = length tl_model \<and>
           (\<forall>i\<in>set visit. \<forall>pb. passport (self_model ! i) = Some pb \<longrightarrow>
              map_of (params (tl_model' ! i)) ''bn.weight'' = Some (get_scale pb) \<and>
              map_of (params (tl_model' ! i)) ''bn.bias'' = Some (get_bias pb) \<and>
              restored (self_model ! i) (tl_model' ! i))"
proof -
  obtain tl1 r where lm: "load_model tl_model self_model = (tl1, r)" by fastforce
  with assms(1) have r: "r" by simp
  from load_model_shape[of tl_model self_model] lm have
    len1: "length tl1 = length tl_model" and
    sh1: "\<And>i. i < length tl_model \<Longrightarrow> shape (params (tl1 ! i)) = shape (params (tl_model ! i))"
    by simp_all
  have pre: "list_all (\<lambda>i. i < length tl1 \<and> i < length self_model \<and> matching (tl1 ! i) (self_model ! i)) visit"
    unfolding list_all_iff
  proof
    fix i assume "i \<in> set visit"
    with assms(2) have i: "i < length tl_model" "i < length self_model"
      "matching (tl_model ! i) (self_model ! i)" by (simp_all add: list_all_iff)
    from matching_shape[OF sh1[OF i(1)], of "self_model ! i"] i len1
    show "i < length tl1 \<and> i < length self_model \<and> matching (tl1 ! i) (self_model ! i)" by simp
  qed
  from load_modules_matching[OF pre] obtain tl2 where
    run: "load_modules visit tl1 self_model = Inr tl2" and
    res: "\<forall>i\<in>set visit. restored (self_model ! i) (tl2 ! i)"
    by blast
  have clone: "load_clone visit tl_model self_model = Inr tl2"
    using lm r run by (simp add: load_clone_def)
  have len2: "length tl2 = length tl_model"
    using load_modules_frame[OF run] len1 by simp
  have "\<forall>i\<in>set visit. \<forall>pb. passport (self_model ! i) = Some pb \<longrightarrow>
              map_of (params (tl2 ! i)) ''bn.weight'' = Some (get_scale pb) \<and>
              map_of (params (tl2 ! i)) ''bn.bias'' = Some (get_bias pb) \<and>
              restored (self_model ! i) (tl2 ! i)"
    using res by (auto simp: restored_def)
  with clone len2 show ?thesis by blast
qed

theorem strict_load_failure_is_recovered_witness:
  "snd (load_model example_clone example_private) \<and>
   list_all (\<lambda>i. i < length example_clone \<and> i < length example_private \<and>
                  matching (example_clone ! i) (example_private ! i)) [0, 1] \<and>
   (\<exists>tl_model'.
      load_clone [0, 1] example_clone example_private = Inr tl_model' \<and>
      length tl_model' = 2 \<and>
      map_of (params (tl_model' ! 0)) ''bn.weight'' = Some [2, - 3] \<and>
      map_of (params (tl_model' ! 0)) ''bn.bias'' = Some [1 / 2, 1 / 4])"
proof -
  have h1: "snd (load_model example_clone example_private)"
    by (simp add: load_model_def load_state_dict_def example_clone_def example_private_def)
  have h2: "list_all (\<lambda>i. i < length example_clone \<and> i < length example_private \<and>
                  matching (example_clone ! i) (example_private ! i)) [0, 1]"
  proof -
    have ne: "set (map fst (shape (params (example_clone ! 0))))
                \<noteq> set (map fst (params (example_private ! 0)))"
    proof
      assume e: "set (map fst (shape (params (example_clone ! 0))))
                   = set (map fst (params (example_private ! 0)))"
      have "''bn.weight'' \<in> set (map fst (shape (params (example_clone ! 0))))"
        by (simp add: shape_def example_clone_def)
      then have "''bn.weight'' \<in> set (map fst (params (example_private ! 0)))"
        unfolding e .
      then show False by (simp add: example_private_def)
    qed
    then show ?thesis
      by (simp add: matching_def shape_def example_clone_def example_private_def)
  qed
  have p: "passport (example_private ! 0) = Some \<lparr>get_scale = [2, - 3], get_bias = [1 / 2, 1 / 4]\<rparr>"
    by (simp add: example_private_def)
  from strict_load_failure_is_recovered[OF h1 h2] obtain tl_model' where
    run: "load_clone [0, 1] example_clone example_private = Inr tl_model'" and
    len: "length tl_model' = length example_clone" and
    all: "\<forall>i\<in>set [0, 1 :: nat]. \<forall>pb. passport (example_private ! i) = Some pb \<longrightarrow>
              map_of (params (tl_model' ! i)) ''bn.weight'' = Some (get_scale pb) \<and>
              map_of (params (tl_model' ! i)) ''bn.bias'' = Some (get_bias pb) \<and>
              restored (example_private ! i) (tl_model' ! i)"
    by blast
  from all p have
    "map_of (params (tl_model' ! 0)) ''bn.weight'' = Some [2, - 3]"
    "map_of (params (tl_model' ! 0)) ''bn.bias'' = Some [1 / 2, 1 / 4]"
    by auto
  moreover have "length tl_model' = 2" using len by (simp add: example_clone_def)
  ultimately show ?thesis using run h1 h2 by blast
qed

section \<open>C9: the sign of a zero scale\<close>

text \<open>
  C9 as stated fails: the sign the code computes for a zero entry is 0, not +1. On the
  layer \<open>[0, 2]\<close> with channel 0 selected, the recorded sign pattern is \<open>[0, 1]\<close>, the
  flip leaves the zero channel at 0, and the channel counts as unchanged (similarity 1).
\<close>

theorem zero_sign_is_positive_counterexample:
  "sign 0 = 0 \<and> sign 0 \<noteq> 1 \<and> tsign [0, 2] = [0, 1] \<and>
   flip_layer [0, 2] [0] = Inr ([0, 1], Some 1, [0], [])"
  by (simp add: flip_layer_def index_imul_def tsign_def sign_def eq_mean_def index_ok_def
        wrap_index_def)

text \<open>
  C9, amended. In the sign computations of the flip a scale entry that is exactly zero has
  the sign 0. The flip step leaves such a channel at 0 whether it is selected or not, its
  sign after the flip equals the recorded one, and the layer's similarity term is a number
  in \<open>[0, 1]\<close> (the layer has a channel, so the mean is not NaN).
\<close>

theorem zero_scale_has_sign_zero:
  assumes "nonneg is" "j < length w" "w ! j = 0"
  shows "\<exists>w' s wi rest.
           flip_layer w is = Inr (w', Some s, wi, rest) \<and>
           tsign w ! j = 0 \<and> w' ! j = 0 \<and> tsign w' ! j = tsign w ! j \<and> 0 \<le> s \<and> s \<le> 1"
proof -
  let ?wi = "layer_widxs (length w) is"
  let ?w' = "flip_at (tsign w) ?wi"
  have len: "length ?w' = length w" by (simp add: length_flip_at tsign_def)
  have ne: "w \<noteq> []" using assms(2) by auto
  have run: "flip_layer w is = Inr (?w', Some (layer_similarity w ?w'), ?wi, layer_rest (length w) is)"
    using flip_layer_nonneg[OF assms(1), of w] eq_mean_similarity[OF len ne] by simp
  have s0: "tsign w ! j = 0" using assms(2,3) by (simp add: tsign_def sign_def)
  have w0: "?w' ! j = 0" using assms(2) s0 by (simp add: nth_flip_at tsign_def)
  have s1: "tsign ?w' ! j = tsign w ! j" using assms(2) w0 s0 len by (simp add: tsign_def sign_def)
  have "length (filter (\<lambda>j. sign (?w' ! j) = sign (w ! j)) [0..<length w]) \<le> length [0..<length w]"
    by (rule length_filter_le)
  then have b: "0 \<le> layer_similarity w ?w'" "layer_similarity w ?w' \<le> 1"
    using ne by (simp_all add: layer_similarity_def divide_le_eq)
  from run s0 w0 s1 b show ?thesis by blast
qed

theorem zero_scale_has_sign_zero_witness:
  "nonneg [0] \<and> 0 < length [0, 2 :: real] \<and> [0, 2 :: real] ! 0 = 0 \<and>
   (\<exists>w' s wi rest.
           flip_layer [0, 2] [0] = Inr (w', Some s, wi, rest) \<and>
           tsign [0, 2] ! 0 = 0 \<and> w' ! 0 = 0 \<and> tsign w' ! 0 = tsign [0, 2] ! 0 \<and> 0 \<le> s \<and> s \<le> 1)"
proof -
  have h1: "nonneg [0]" by (simp add: nonneg_def)
  have h2: "0 < length [0, 2 :: real]" by simp
  have h3: "[0, 2 :: real] ! 0 = 0" by simp
  from zero_scale_has_sign_zero[OF h1 h2 h3] h1 h2 h3 show ?thesis by blast
qed

section \<open>C10: what fine-tuning can change\<close>

text \<open>
  C10. When the setup of \<open>run_attack_2\<close> (freezing every parameter, the two loops over
  \<open>plkeys\<close>, the flip loop) has finished, a parameter of the attacked model has
  \<open>requires_grad\<close> True exactly when it is the batch-norm weight or bias of a block in
  \<open>plkeys\<close>. Every other parameter (convolution weights, the affine parameters of the
  other blocks, the classifier) holds the data it was loaded with, and still holds it after
  any number of fine-tuning epochs, whatever the optimizer writes into the trainable ones.
\<close>

theorem only_passport_affine_parameters_trainable:
  assumes "attack_setup pm plkeys randperm flipperc m = Inr (st, s)"
  shows "(\<forall>n p. net st n = Some p \<longrightarrow> requires_grad p = affine_of plkeys n) \<and>
         (\<forall>n. (net st n = None) = (m n = None)) \<and>
         (\<forall>eps n. \<not> affine_of plkeys n \<longrightarrow>
            map_option data (net st n) = map_option data (m n) \<and>
            map_option data (fine_tune eps (net st) n) = map_option data (m n))"
proof -
  from assms obtain m1 where
    load: "load_affine pm plkeys (freeze_all m) = Inr m1" and
    app: "apply_attack plkeys randperm flipperc m1 = Inr (st, s)"
    by (auto simp: attack_setup_def split: sum.splits)
  from app obtain t where
    run: "flip_loop (map BnWeight plkeys)
       \<lparr>net = collected plkeys m1, idxs = select_idxs (randperm t) t flipperc,
        sim = Some 0, consumed = []\<rparr> = Inr st"
    by (rule apply_attack_InrE)
  have aff: "\<exists>p. net st n = Some p \<and> requires_grad p" if a: "affine_of plkeys n" for n
  proof -
    from load_affine_flags[OF load, of n] a obtain p1 where "m1 n = Some p1" by blast
    with collected_flags[of plkeys n m1] a
    have "map_option requires_grad (collected plkeys m1 n) = Some True" by simp
    with flip_loop_shape[OF run, of n]
    have "map_option requires_grad (net st n) = Some True" by simp
    then show ?thesis by auto
  qed
  have frozen: "net st n = map_option (\<lambda>p. p\<lparr>requires_grad := False\<rparr>) (m n)"
    if a: "\<not> affine_of plkeys n" for n
  proof -
    have "net st n = collected plkeys m1 n"
      using flip_loop_frame[OF run affine_of_not_weight[OF a]] by simp
    also have "\<dots> = m1 n" using collected_flags[of plkeys n m1] a by simp
    also have "\<dots> = freeze_all m n" using load_affine_flags[OF load, of n] a by simp
    finally show ?thesis by (simp add: freeze_all_def)
  qed
  have 1: "\<forall>n p. net st n = Some p \<longrightarrow> requires_grad p = affine_of plkeys n"
  proof (intro allI impI)
    fix n p assume p: "net st n = Some p"
    show "requires_grad p = affine_of plkeys n"
    proof (cases "affine_of plkeys n")
      case True
      with aff[OF True] p show ?thesis by simp
    next
      case False
      with frozen[OF False] p show ?thesis by (cases "m n") auto
    qed
  qed
  have 2: "\<forall>n. (net st n = None) = (m n = None)"
  proof
    fix n
    show "(net st n = None) = (m n = None)"
    proof (cases "affine_of plkeys n")
      case True
      have "freeze_all m n \<noteq> None"
        using load_affine_present[OF load True] .
      with aff[OF True] show ?thesis by (auto simp: freeze_all_def)
    next
      case False
      with frozen[OF False] show ?thesis by simp
    qed
  qed
  have 3: "\<forall>eps n. \<not> affine_of plkeys n \<longrightarrow>
            map_option data (net st n) = map_option data (m n) \<and>
            map_option data (fine_tune eps (net st) n) = map_option data (m n)"
  proof (intro allI impI)
    fix eps n assume a: "\<not> affine_of plkeys n"
    show "map_option data (net st n) = map_option data (m n) \<and>
            map_option data (fine_tune eps (net st) n) = map_option data (m n)"
    proof (cases "m n")
      case None
      with frozen[OF a] have "net st n = None" by simp
      with None fine_tune_None[of "net st" n eps] show ?thesis by simp
    next
      case (Some p)
      with frozen[OF a] have s: "net st n = Some (p\<lparr>requires_grad := False\<rparr>)" by simp
      have "fine_tune eps (net st) n = Some (p\<lparr>requires_grad := False\<rparr>)"
        using s by (rule fine_tune_frozen) simp
      with s Some show ?thesis by simp
    qed
  qed
  from 1 2 3 show ?thesis by blast
qed

lemma example_setup:
  "\<exists>st s. attack_setup example_passport [0, 1] (\<lambda>n. [3, 0, 4, 1, 2]) (1 / 2) example_model = Inr (st, s)"
  by (simp add: attack_setup_def freeze_all_def example_passport_def tensor_copy_def
        apply_attack_def example_model_def select_idxs_def slice_to_def py_int_def
        flip_layer_def index_imul_def tsign_def sign_def eq_mean_def index_ok_def wrap_index_def
        fadd_def signature_similarity_def)

theorem only_passport_affine_parameters_trainable_witness:
  "\<exists>st s. attack_setup example_passport [0, 1] (\<lambda>n. [3, 0, 4, 1, 2]) (1 / 2) example_model = Inr (st, s) \<and>
     map_option requires_grad (net st (BnWeight 0)) = Some True \<and>
     map_option requires_grad (net st (BnBias 1)) = Some True \<and>
     map_option requires_grad (net st (ConvWeight 0)) = Some False \<and>
     map_option requires_grad (net st (BnWeight 2)) = Some False \<and>
     map_option requires_grad (net st (Other 0)) = Some False \<and>
     map_option data (fine_tune [[\<lambda>m n. [], \<lambda>m n. [1]], [\<lambda>m n. [2]]] (net st) (ConvWeight 0))
       = Some [1 / 2, - 1 / 4]"
proof -
  from example_setup obtain st s where
    run: "attack_setup example_passport [0, 1] (\<lambda>n. [3, 0, 4, 1, 2]) (1 / 2) example_model = Inr (st, s)"
    by blast
  note t = only_passport_affine_parameters_trainable[OF run]
  from t have flags: "\<And>n p. net st n = Some p \<Longrightarrow> requires_grad p = affine_of [0, 1] n"
    and dom: "\<And>n. (net st n = None) = (example_model n = None)"
    and keep: "\<And>eps n. \<not> affine_of [0, 1] n \<Longrightarrow>
            map_option data (fine_tune eps (net st) n) = map_option data (example_model n)"
    by blast+
  have f: "map_option requires_grad (net st n) = Some (affine_of [0, 1] n)"
    if "example_model n \<noteq> None" for n
  proof -
    from that dom[of n] obtain p where p: "net st n = Some p" by auto
    with flags[OF p] show ?thesis by simp
  qed
  have 1: "map_option requires_grad (net st (BnWeight 0)) = Some True"
    using f[of "BnWeight 0"] by (simp add: example_model_def affine_of_def)
  have 2: "map_option requires_grad (net st (BnBias 1)) = Some True"
    using f[of "BnBias 1"] by (simp add: example_model_def affine_of_def)
  have 3: "map_option requires_grad (net st (ConvWeight 0)) = Some False"
    using f[of "ConvWeight 0"] by (simp add: example_model_def affine_of_def)
  have 4: "map_option requires_grad (net st (BnWeight 2)) = Some False"
    using f[of "BnWeight 2"] by (simp add: example_model_def affine_of_def)
  have 5: "map_option requires_grad (net st (Other 0)) = Some False"
    using f[of "Other 0"] by (simp add: example_model_def affine_of_def)
  have 6: "map_option data (fine_tune [[\<lambda>m n. [], \<lambda>m n. [1]], [\<lambda>m n. [2]]] (net st) (ConvWeight 0))
       = Some [1 / 2, - 1 / 4]"
  proof -
    have k0: "\<not> affine_of [0, 1] (ConvWeight (0::nat))" by (simp add: affine_of_def)
    have e: "map_option data (example_model (ConvWeight 0)) = Some [1 / 2, - 1 / 4]"
      by (simp add: example_model_def)
    from keep[OF k0] e show ?thesis by (simp only:)
  qed
  from run 1 2 3 4 5 6 show ?thesis by blast
qed

end
